theory Spec2Isabelle
  imports Main "HOL-Library.Word" "HOL-Library.AList"
begin

section \<open>Chunker: \<open>ClaudeTool.chunkTextForStreaming\<close>\<close>














subsection \<open>The flush rule in the words of the specification\<close>





section \<open>Permission requests: data\<close>

text \<open>
  Sources: the TypeScript of \<^verbatim>\<open>context/explorations/permission-system.md\<close>
  (\<^verbatim>\<open>PermissionService\<close>, \<^verbatim>\<open>ClaudePromptService.createPreToolUseHook\<close>,
  \<^verbatim>\<open>updateProjectSettings\<close>) and of the permission status document that ends
  \<^verbatim>\<open>context/explorations/git-worktree.md\<close> (the task type, the task updates of the hook and
  the \<^verbatim>\<open>/sessions/:id/permission-decision\<close> endpoint).
\<close>

datatype error = Error string

datatype permission_scope = ScopeOnce | ScopeSession | ScopeProject

text \<open>
  \<^verbatim>\<open>interface PermissionDecision\<close>. The decisions that \<^verbatim>\<open>waitForDecision\<close> makes up on
  abort and on timeout have no \<^verbatim>\<open>taskId\<close> and no \<^verbatim>\<open>decidedBy\<close>.
\<close>

record PermissionDecision =
  requestId :: string
  taskId :: "string option"
  allow :: bool
  reason :: "string option"
  remember :: bool
  scope :: permission_scope
  decidedBy :: "string option"

text \<open>
  The body of a request to the endpoint, before it is validated. A missing string field and
  an empty one are both falsy in JavaScript and are both written as the empty string here;
  \<open>p_allow = None\<close> is a body whose \<^verbatim>\<open>allow\<close> is not a boolean.
\<close>

record decision_payload =
  p_requestId :: string
  p_taskId :: string
  p_allow :: "bool option"
  p_reason :: "string option"
  p_remember :: bool
  p_scope :: permission_scope
  p_decidedBy :: string

text \<open>\<^verbatim>\<open>interface PermissionRequest\<close>, the payload of the \<^verbatim>\<open>permission:request\<close> event.\<close>

record PermissionRequest =
  ev_requestId :: string
  ev_sessionId :: string
  ev_taskId :: string
  ev_toolName :: string
  ev_toolInput :: "(string \<times> string) list"
  ev_toolUseID :: "string option"
  ev_timestamp :: string

datatype TaskStatus = created | running | awaiting_permission | completed | failed

text \<open>The \<^verbatim>\<open>permission_request\<close> member of \<^verbatim>\<open>interface Task\<close>.\<close>

record task_permission_request =
  request_id :: string
  tool_name :: string
  tool_input :: "(string \<times> string) list"
  tool_use_id :: "string option"
  requested_at :: string
  approved_by :: "string option"
  approved_at :: "string option"

record Task =
  status :: TaskStatus
  permission_request :: "task_permission_request option"

text \<open>
  What the hook reads of a session: \<^verbatim>\<open>session.data?.permission_config?.allowedTools\<close>
  (\<open>None\<close> when any link of the chain is undefined) and \<^verbatim>\<open>session.repo.cwd\<close>.
\<close>

record Session =
  allowedTools :: "string list option"
  cwd :: string

datatype hook_decision = allow_tool | deny_tool

text \<open>The \<^verbatim>\<open>hookSpecificOutput\<close> of a \<^verbatim>\<open>PreToolUse\<close> hook.\<close>

record HookJSONOutput =
  permissionDecision :: hook_decision
  permissionDecisionReason :: "string option"

subsection \<open>\<^verbatim>\<open>PermissionService\<close>\<close>

text \<open>
  Every call of \<^verbatim>\<open>waitForDecision\<close> creates a promise, a timer and an abort listener; the
  three share one index. \<open>w_settled\<close> is the state of the promise (\<open>None\<close> while it is
  pending), \<open>w_timer\<close> the state of the timer and \<open>w_delay\<close> its delay in milliseconds;
  \<open>w_requestId\<close> is the \<^verbatim>\<open>requestId\<close> the two callbacks have captured.
\<close>

datatype timer_state = Armed | Fired | Cleared

record wait =
  w_requestId :: string
  w_settled :: "PermissionDecision option"
  w_timer :: timer_state
  w_delay :: nat

text \<open>
  \<open>pendingRequests\<close> is the \<^verbatim>\<open>Map\<close> of the class; the entry \<^verbatim>\<open>{ resolve, timeout }\<close> of a
  call is written as the index of the call. \<open>emitted\<close> lists the calls of \<^verbatim>\<open>emitEvent\<close>.
\<close>

record PermissionService =
  pendingRequests :: "(string \<times> nat) list"
  waits :: "wait list"
  emitted :: "(string \<times> PermissionRequest) list"

definition emitRequest :: "string \<Rightarrow> PermissionRequest \<Rightarrow> PermissionService \<Rightarrow> PermissionService" where
  "emitRequest sessionId request ps =
     (let fullRequest = request\<lparr>ev_sessionId := sessionId\<rparr>
      in ps\<lparr>emitted := emitted ps @ [(''permission:request'', fullRequest)]\<rparr>)"

text \<open>
  The \<^verbatim>\<open>resolve\<close> function of promise \<open>i\<close>: it settles a pending promise and does nothing to
  a settled one.
\<close>

definition resolve :: "nat \<Rightarrow> PermissionDecision \<Rightarrow> PermissionService \<Rightarrow> PermissionService" where
  "resolve i decision ps =
     (if i < length (waits ps) \<and> w_settled (waits ps ! i) = None
      then ps\<lparr>waits := (waits ps)[i := (waits ps ! i)\<lparr>w_settled := Some decision\<rparr>]\<rparr>
      else ps)"

definition cancelled_decision :: "string \<Rightarrow> PermissionDecision" where
  "cancelled_decision rid =
     \<lparr>requestId = rid, taskId = None, allow = False, reason = Some ''Cancelled'',
      remember = False, scope = ScopeOnce, decidedBy = None\<rparr>"

definition timeout_decision :: "string \<Rightarrow> PermissionDecision" where
  "timeout_decision rid =
     \<lparr>requestId = rid, taskId = None, allow = False, reason = Some ''Timeout'',
      remember = False, scope = ScopeOnce, decidedBy = None\<rparr>"

text \<open>
  \<^verbatim>\<open>waitForDecision(requestId, signal)\<close>: the executor of the promise registers the abort
  listener, arms the timer (60000 ms) and stores the entry. The result is the index of the
  promise; the signal of the call is known by the same index.
\<close>

definition waitForDecision :: "string \<Rightarrow> PermissionService \<Rightarrow> nat \<times> PermissionService" where
  "waitForDecision rid ps =
     (length (waits ps),
      ps\<lparr>waits := waits ps @ [\<lparr>w_requestId = rid, w_settled = None, w_timer = Armed, w_delay = 60000\<rparr>],
         pendingRequests := AList.update rid (length (waits ps)) (pendingRequests ps)\<rparr>)"

text \<open>The listener of \<^verbatim>\<open>'abort'\<close> registered by call \<open>i\<close>.\<close>

definition abort_listener :: "nat \<Rightarrow> PermissionService \<Rightarrow> PermissionService" where
  "abort_listener i ps =
     (if i < length (waits ps)
      then let rid = w_requestId (waits ps ! i)
           in resolve i (cancelled_decision rid)
                (ps\<lparr>pendingRequests := AList.delete rid (pendingRequests ps)\<rparr>)
      else ps)"

text \<open>The callback of the timer of call \<open>i\<close>; a timer that was cleared or has fired does not run.\<close>

definition timer_callback :: "nat \<Rightarrow> PermissionService \<Rightarrow> PermissionService" where
  "timer_callback i ps =
     (if i < length (waits ps) \<and> w_timer (waits ps ! i) = Armed
      then let rid = w_requestId (waits ps ! i)
           in resolve i (timeout_decision rid)
                (ps\<lparr>waits := (waits ps)[i := (waits ps ! i)\<lparr>w_timer := Fired\<rparr>],
                    pendingRequests := AList.delete rid (pendingRequests ps)\<rparr>)
      else ps)"

definition clearTimeout :: "nat \<Rightarrow> PermissionService \<Rightarrow> PermissionService" where
  "clearTimeout i ps =
     (if i < length (waits ps) \<and> w_timer (waits ps ! i) = Armed
      then ps\<lparr>waits := (waits ps)[i := (waits ps ! i)\<lparr>w_timer := Cleared\<rparr>]\<rparr>
      else ps)"

definition resolvePermission :: "PermissionDecision \<Rightarrow> PermissionService \<Rightarrow> PermissionService" where
  "resolvePermission decision ps =
     (case map_of (pendingRequests ps) (requestId decision) of
        None \<Rightarrow> ps
      | Some pending \<Rightarrow>
          (let ps1 = clearTimeout pending ps;
               ps2 = resolve pending decision ps1
           in ps2\<lparr>pendingRequests := AList.delete (requestId decision) (pendingRequests ps2)\<rparr>))"

subsection \<open>The stores and the endpoint\<close>

text \<open>
  The state the hook and the endpoint work on: the session records, the task records, the
  \<^verbatim>\<open>.claude/settings.json\<close> of every working directory and the permission service.
  For a settings file, \<open>None\<close> is a file that cannot be read, \<open>Some None\<close> a file without
  \<^verbatim>\<open>permissions\<close>, and \<open>Some (Some tools)\<close> a file whose \<^verbatim>\<open>permissions.allow.tools\<close> is
  \<open>tools\<close>. Session and task identifiers are taken to denote stored records, and an
  update of a stored record (\<^verbatim>\<open>tasksRepo.update\<close>, \<^verbatim>\<open>sessionsRepo.update\<close>, whose code is
  not among the sources) replaces the fields it names and keeps the others.
\<close>

record system =
  sessions :: "string \<Rightarrow> Session"
  tasks :: "string \<Rightarrow> Task"
  projectSettings :: "string \<Rightarrow> string list option option"
  permissionService :: PermissionService

text \<open>
  Modelled from the spec: the task store (\<^verbatim>\<open>tasksRepo.update\<close>, \<^verbatim>\<open>tasksService.patch\<close>) is
  not among the sources. Both callers pass the update
  \<^verbatim>\<open>{ status, 'permission_request.approved_by', 'permission_request.approved_at' }\<close>, and
  the specification has the task "store approved_by/approved_at from the decision": the
  status is replaced and the two fields are set in the embedded request. A task without an
  embedded request has no record the two fields belong to and keeps none.
\<close>

definition patch_approval :: "TaskStatus \<Rightarrow> string option \<Rightarrow> string \<Rightarrow> Task \<Rightarrow> Task" where
  "patch_approval st by at t =
     t\<lparr>status := st,
       permission_request :=
         map_option (\<lambda>pr. pr\<lparr>approved_by := by, approved_at := Some at\<rparr>) (permission_request t)\<rparr>"

definition decision_of :: "decision_payload \<Rightarrow> bool \<Rightarrow> PermissionDecision" where
  "decision_of data a =
     \<lparr>requestId = p_requestId data, taskId = Some (p_taskId data), allow = a,
      reason = p_reason data, remember = p_remember data, scope = p_scope data,
      decidedBy = Some (p_decidedBy data)\<rparr>"

text \<open>
  The \<^verbatim>\<open>create\<close> method of \<^verbatim>\<open>/sessions/:id/permission-decision\<close>; \<open>route_id\<close> is
  \<^verbatim>\<open>params.route?.id\<close> (the empty string when it is missing) and \<open>now\<close> the clock the
  method reads. Every \<^verbatim>\<open>throw\<close> comes before the first update; the patch of the task
  and the call of \<^verbatim>\<open>resolvePermission\<close> that follows it are one step.
\<close>

definition permission_decision_create ::
    "decision_payload \<Rightarrow> string \<Rightarrow> string \<Rightarrow> system \<Rightarrow> error + system" where
  "permission_decision_create data route_id now sys =
     (if route_id = [] then Inl (Error ''Session ID required'')
      else if p_requestId data = [] then Inl (Error ''requestId required'')
      else if p_taskId data = [] then Inl (Error ''taskId required'')
      else if p_decidedBy data = [] then Inl (Error ''decidedBy required'')
      else case p_allow data of
        None \<Rightarrow> Inl (Error ''allow field required'')
      | Some a \<Rightarrow>
          (let sys1 = sys\<lparr>tasks := (tasks sys)(p_taskId data :=
                         patch_approval (if a then running else failed)
                           (Some (p_decidedBy data)) now (tasks sys (p_taskId data)))\<rparr>
           in Inr (sys1\<lparr>permissionService :=
                          resolvePermission (decision_of data a) (permissionService sys1)\<rparr>)))"

subsection \<open>The \<^verbatim>\<open>PreToolUse\<close> hook\<close>

text \<open>
  One call of the hook: the identifiers it was created with, the tool call it is asked
  about, the value \<^verbatim>\<open>generateId()\<close> returns to it and the three readings of the clock
  (\<^verbatim>\<open>requested_at\<close>, the \<^verbatim>\<open>timestamp\<close> of the event, \<^verbatim>\<open>approved_at\<close>).
\<close>

record hook_call =
  h_sessionId :: string
  h_taskId :: string
  h_tool_name :: string
  h_tool_input :: "(string \<times> string) list"
  h_toolUseID :: "string option"
  h_requestId :: string
  h_requested_at :: string
  h_timestamp :: string
  h_approved_at :: string

text \<open>\<^verbatim>\<open>xs?.includes(x)\<close> as a condition.\<close>

definition array_includes :: "string list option \<Rightarrow> string \<Rightarrow> bool" where
  "array_includes xs x = (case xs of None \<Rightarrow> False | Some ys \<Rightarrow> x \<in> set ys)"

text \<open>\<^verbatim>\<open>[...new Set(xs)]\<close>: the first occurrence of every element, in order.\<close>

definition dedupe :: "string list \<Rightarrow> string list" where
  "dedupe xs = rev (remdups (rev xs))"

definition updateProjectSettings :: "string \<Rightarrow> string list \<Rightarrow> system \<Rightarrow> error + system" where
  "updateProjectSettings dir allowTools sys =
     (case projectSettings sys dir of
        None \<Rightarrow> Inl (Error ''ENOENT'')
      | Some permissions \<Rightarrow>
          (let tools = (case permissions of None \<Rightarrow> [] | Some ts \<Rightarrow> ts)
           in Inr (sys\<lparr>projectSettings :=
                          (projectSettings sys)(dir := Some (Some (dedupe (tools @ allowTools))))\<rparr>)))"

text \<open>
  The hook is an \<^verbatim>\<open>async\<close> function with one point of suspension that depends on the
  environment, \<^verbatim>\<open>await waitForDecision(...)\<close>. \<open>hook_before\<close> runs it up to that point,
  \<open>hook_after\<close> from there on. A suspended hook keeps the session record it has read.
\<close>

datatype hook_progress = Returned HookJSONOutput | Suspended nat Session

definition hook_before :: "hook_call \<Rightarrow> system \<Rightarrow> hook_progress \<times> system" where
  "hook_before c sys =
     (let session = sessions sys (h_sessionId c)
      in if array_includes (allowedTools session) (h_tool_name c)
         then (Returned \<lparr>permissionDecision = allow_tool,
                          permissionDecisionReason = Some ''Allowed by session config''\<rparr>, sys)
         else
           (let sys1 = sys\<lparr>tasks := (tasks sys)(h_taskId c :=
                          (tasks sys (h_taskId c))\<lparr>status := awaiting_permission,
                             permission_request := Some
                               \<lparr>request_id = h_requestId c, tool_name = h_tool_name c,
                                tool_input = h_tool_input c, tool_use_id = h_toolUseID c,
                                requested_at = h_requested_at c,
                                approved_by = None, approved_at = None\<rparr>\<rparr>)\<rparr>;
                ps1 = emitRequest (h_sessionId c)
                        \<lparr>ev_requestId = h_requestId c, ev_sessionId = h_sessionId c,
                         ev_taskId = h_taskId c, ev_toolName = h_tool_name c,
                         ev_toolInput = h_tool_input c, ev_toolUseID = h_toolUseID c,
                         ev_timestamp = h_timestamp c\<rparr>
                        (permissionService sys1);
                (promise, ps2) = waitForDecision (h_requestId c) ps1
            in (Suspended promise session, sys1\<lparr>permissionService := ps2\<rparr>)))"

definition hook_after ::
    "hook_call \<Rightarrow> Session \<Rightarrow> PermissionDecision \<Rightarrow> system \<Rightarrow> (error + HookJSONOutput) \<times> system" where
  "hook_after c session decision sys =
     (let sys1 = sys\<lparr>tasks := (tasks sys)(h_taskId c :=
                    patch_approval (if allow decision then running else failed)
                      (decidedBy decision) (h_approved_at c) (tasks sys (h_taskId c)))\<rparr>;
          output = \<lparr>permissionDecision = (if allow decision then allow_tool else deny_tool),
                    permissionDecisionReason = reason decision\<rparr>
      in if remember decision then
           (if scope decision = ScopeSession then
              (Inr output,
               sys1\<lparr>sessions := (sessions sys1)(h_sessionId c :=
                      (sessions sys1 (h_sessionId c))\<lparr>allowedTools := Some
                         ((case allowedTools session of None \<Rightarrow> [] | Some ts \<Rightarrow> ts)
                          @ [h_tool_name c])\<rparr>)\<rparr>)
            else if scope decision = ScopeProject then
              (case updateProjectSettings (cwd session) [h_tool_name c] sys1 of
                 Inl e \<Rightarrow> (Inl e, sys1)
               | Inr sys2 \<Rightarrow> (Inr output, sys2))
            else (Inr output, sys1))
         else (Inr output, sys1))"

subsection \<open>The environment of a suspended hook\<close>

text \<open>
  What can happen while hooks are suspended: a request to the endpoint (route id, body,
  clock), the abort of the signal of call \<open>i\<close>, the expiry of the timer of call \<open>i\<close>.
  A request the endpoint rejects changes nothing.
\<close>

datatype event = Deliver string decision_payload string | Abort nat | TimerFire nat

fun step :: "event \<Rightarrow> system \<Rightarrow> system" where
  "step (Deliver route_id data now) sys =
     (case permission_decision_create data route_id now sys of Inl e \<Rightarrow> sys | Inr sys' \<Rightarrow> sys')"
| "step (Abort i) sys = sys\<lparr>permissionService := abort_listener i (permissionService sys)\<rparr>"
| "step (TimerFire i) sys = sys\<lparr>permissionService := timer_callback i (permissionService sys)\<rparr>"

fun run :: "event list \<Rightarrow> system \<Rightarrow> system" where
  "run [] sys = sys"
| "run (e # es) sys = run es (step e sys)"

definition settled :: "nat \<Rightarrow> system \<Rightarrow> PermissionDecision option" where
  "settled i sys =
     (if i < length (waits (permissionService sys))
      then w_settled (waits (permissionService sys) ! i) else None)"

text \<open>
  \<^verbatim>\<open>await\<close> on promise \<open>i\<close>: the continuation runs in the state in which the promise is
  first found settled; \<open>None\<close> when the events end with the promise still pending.
\<close>

fun await :: "nat \<Rightarrow> event list \<Rightarrow> system \<Rightarrow> (PermissionDecision \<times> system) option" where
  "await i [] sys = (case settled i sys of None \<Rightarrow> None | Some d \<Rightarrow> Some (d, sys))"
| "await i (e # es) sys =
     (case settled i sys of None \<Rightarrow> await i es (step e sys) | Some d \<Rightarrow> Some (d, sys))"

text \<open>
  The whole hook (\<open>evaluate\<close> in the specification) in an environment that produces the
  events \<open>es\<close> while it waits: \<open>None\<close> is a hook that is still suspended, \<open>Inl\<close> an
  exception that leaves the hook.
\<close>

definition evaluate ::
    "hook_call \<Rightarrow> event list \<Rightarrow> system \<Rightarrow> ((error + HookJSONOutput) \<times> system) option" where
  "evaluate c es sys =
     (case hook_before c sys of
        (Returned output, sys1) \<Rightarrow> Some (Inr output, sys1)
      | (Suspended promise session, sys1) \<Rightarrow>
          (case await promise es sys1 of
             None \<Rightarrow> None
           | Some (decision, sys2) \<Rightarrow> Some (hook_after c session decision sys2)))"

text \<open>
  The event of \<open>es\<close> that decides promise \<open>i\<close> of request \<open>rid\<close>: the first one that is
  the abort or the timer of the call, or a request for \<open>rid\<close> that the endpoint accepts.
\<close>

definition accepted :: "string \<Rightarrow> decision_payload \<Rightarrow> bool" where
  "accepted route_id data \<longleftrightarrow>
     route_id \<noteq> [] \<and> p_requestId data \<noteq> [] \<and> p_taskId data \<noteq> [] \<and> p_decidedBy data \<noteq> []
     \<and> p_allow data \<noteq> None"

fun first_outcome :: "nat \<Rightarrow> string \<Rightarrow> event list \<Rightarrow> PermissionDecision option" where
  "first_outcome i rid [] = None"
| "first_outcome i rid (Deliver route_id data now # es) =
     (case p_allow data of
        Some a \<Rightarrow> (if accepted route_id data \<and> p_requestId data = rid then Some (decision_of data a)
                   else first_outcome i rid es)
      | None \<Rightarrow> first_outcome i rid es)"
| "first_outcome i rid (Abort j # es) =
     (if j = i then Some (cancelled_decision rid) else first_outcome i rid es)"
| "first_outcome i rid (TimerFire j # es) =
     (if j = i then Some (timeout_decision rid) else first_outcome i rid es)"

text \<open>
  Any interleaving of environment events with the two halves of hook calls; an exception
  in \<open>hook_after\<close> leaves the state as it is when the exception is thrown.
\<close>

datatype operation =
    Env event
  | HookBefore hook_call
  | HookAfter hook_call Session PermissionDecision

fun apply_operation :: "operation \<Rightarrow> system \<Rightarrow> system" where
  "apply_operation (Env e) sys = step e sys"
| "apply_operation (HookBefore c) sys = snd (hook_before c sys)"
| "apply_operation (HookAfter c session decision) sys = snd (hook_after c session decision sys)"

fun execute :: "operation list \<Rightarrow> system \<Rightarrow> system" where
  "execute [] sys = sys"
| "execute (op # ops) sys = execute ops (apply_operation op sys)"

text \<open>
  A request is unresolved while the service still waits for its decision: its identifier is
  a key of \<open>pendingRequests\<close> and the promise of the entry is pending.
\<close>

definition request_unresolved :: "system \<Rightarrow> task_permission_request \<Rightarrow> bool" where
  "request_unresolved sys pr =
     (case map_of (pendingRequests (permissionService sys)) (request_id pr) of
        None \<Rightarrow> False
      | Some i \<Rightarrow> settled i sys = None)"

definition has_unresolved_request :: "system \<Rightarrow> string \<Rightarrow> bool" where
  "has_unresolved_request sys tid =
     (case permission_request (tasks sys tid) of
        None \<Rightarrow> False
      | Some pr \<Rightarrow> request_unresolved sys pr)"

text \<open>
  What the task record itself shows of a request: whether an approval was written into it
  (\<^verbatim>\<open>approved_by\<close>, \<^verbatim>\<open>approved_at\<close>). The endpoint writes the two fields at every delivery
  it accepts, so a request with an approval need not be a request that was decided.
\<close>

definition approval_blank :: "task_permission_request \<Rightarrow> bool" where
  "approval_blank pr \<longleftrightarrow> approved_by pr = None \<and> approved_at pr = None"

definition has_unapproved_request :: "Task \<Rightarrow> bool" where
  "has_unapproved_request t =
     (case permission_request t of None \<Rightarrow> False | Some pr \<Rightarrow> approval_blank pr)"



text \<open>Tasks as the executor creates them: not waiting, and without a permission request.\<close>

definition no_permission_history :: "system \<Rightarrow> bool" where
  "no_permission_history sys \<longleftrightarrow>
     (\<forall>tid. status (tasks sys tid) \<noteq> awaiting_permission \<and> permission_request (tasks sys tid) = None)"

subsection \<open>A small configuration\<close>

definition empty_service :: PermissionService where
  "empty_service = \<lparr>pendingRequests = [], waits = [], emitted = []\<rparr>"

definition system0 :: system where
  "system0 =
     \<lparr>sessions = (\<lambda>sid. \<lparr>allowedTools = None, cwd = ''/repo''\<rparr>),
      tasks = (\<lambda>tid. \<lparr>status = running, permission_request = None\<rparr>),
      projectSettings = (\<lambda>dir. None),
      permissionService = empty_service\<rparr>"

definition call1 :: hook_call where
  "call1 =
     \<lparr>h_sessionId = ''s1'', h_taskId = ''t1'', h_tool_name = ''Bash'',
      h_tool_input = [(''command'', ''ls'')], h_toolUseID = None, h_requestId = ''r1'',
      h_requested_at = ''10:00:00'', h_timestamp = ''10:00:00'', h_approved_at = ''10:00:30''\<rparr>"

definition call2 :: hook_call where
  "call2 =
     \<lparr>h_sessionId = ''s1'', h_taskId = ''t1'', h_tool_name = ''Write'',
      h_tool_input = [(''file_path'', ''a.txt'')], h_toolUseID = None, h_requestId = ''r2'',
      h_requested_at = ''10:01:00'', h_timestamp = ''10:01:00'', h_approved_at = ''10:01:30''\<rparr>"

definition body1 :: "bool \<Rightarrow> bool \<Rightarrow> permission_scope \<Rightarrow> decision_payload" where
  "body1 a r sc =
     \<lparr>p_requestId = ''r1'', p_taskId = ''t1'', p_allow = Some a, p_reason = None,
      p_remember = r, p_scope = sc, p_decidedBy = ''alice''\<rparr>"

definition body2 :: decision_payload where
  "body2 =
     \<lparr>p_requestId = ''r2'', p_taskId = ''t1'', p_allow = Some True, p_reason = None,
      p_remember = True, p_scope = ScopeSession, p_decidedBy = ''bob''\<rparr>"

definition system_allowed :: system where
  "system_allowed =
     system0\<lparr>sessions := (\<lambda>sid. \<lparr>allowedTools = Some [''Bash''], cwd = ''/repo''\<rparr>)\<rparr>"


subsection \<open>Notions used to state the properties\<close>

text \<open>The request the hook stores in the task before it waits.\<close>

definition request_of :: "hook_call \<Rightarrow> task_permission_request" where
  "request_of c =
     \<lparr>request_id = h_requestId c, tool_name = h_tool_name c, tool_input = h_tool_input c,
      tool_use_id = h_toolUseID c, requested_at = h_requested_at c,
      approved_by = None, approved_at = None\<rparr>"

definition task_invariant :: "Task \<Rightarrow> bool" where
  "task_invariant t \<longleftrightarrow> (status t = awaiting_permission \<longleftrightarrow> has_unapproved_request t)"

text \<open>
  Every entry of \<open>pendingRequests\<close> belongs to a call of \<^verbatim>\<open>waitForDecision\<close> that was made
  with the key of the entry. This holds of the empty service and is kept by every
  operation (\<open>execute_well_formed\<close> below).
\<close>

definition service_well_formed :: "PermissionService \<Rightarrow> bool" where
  "service_well_formed ps \<longleftrightarrow>
     (\<forall>k j. map_of (pendingRequests ps) k = Some j \<longrightarrow>
            j < length (waits ps) \<and> w_requestId (waits ps ! j) = k)"

text \<open>No earlier call was made with \<open>rid\<close>: what \<^verbatim>\<open>generateId()\<close> provides.\<close>

definition fresh_request_id :: "string \<Rightarrow> PermissionService \<Rightarrow> bool" where
  "fresh_request_id rid ps \<longleftrightarrow> (\<forall>w \<in> set (waits ps). w_requestId w \<noteq> rid)"

text \<open>
  Call \<open>i\<close> is the only call made with \<open>rid\<close>; while its promise is pending, the entry of
  \<open>rid\<close> is its own and its timer is armed.
\<close>

definition waiting :: "nat \<Rightarrow> string \<Rightarrow> PermissionService \<Rightarrow> bool" where
  "waiting i rid ps \<longleftrightarrow>
     service_well_formed ps \<and> i < length (waits ps) \<and> w_requestId (waits ps ! i) = rid
     \<and> (\<forall>j < length (waits ps). w_requestId (waits ps ! j) = rid \<longrightarrow> j = i)
     \<and> (w_settled (waits ps ! i) = None \<longrightarrow>
          map_of (pendingRequests ps) rid = Some i \<and> w_timer (waits ps ! i) = Armed)"

section \<open>Properties of the Chunker\<close>

subsection \<open>Splitting keeps every code unit\<close>










subsection \<open>The sentence boundary test\<close>







subsection \<open>The loop\<close>







subsection \<open>Claims about the Chunker\<close>







section \<open>Properties of the permission service\<close>

subsection \<open>The operations of the service, field by field\<close>

lemma resolve_fields [simp]:
  "length (waits (resolve j d ps)) = length (waits ps)"
  "pendingRequests (resolve j d ps) = pendingRequests ps"
  "emitted (resolve j d ps) = emitted ps"
  by (simp_all add: resolve_def)

lemma resolve_nth:
  "i < length (waits ps) \<Longrightarrow>
   waits (resolve j d ps) ! i =
     (if i = j \<and> w_settled (waits ps ! i) = None then (waits ps ! i)\<lparr>w_settled := Some d\<rparr>
      else waits ps ! i)"
  by (auto simp: resolve_def nth_list_update)

lemma clearTimeout_fields [simp]:
  "length (waits (clearTimeout j ps)) = length (waits ps)"
  "pendingRequests (clearTimeout j ps) = pendingRequests ps"
  "emitted (clearTimeout j ps) = emitted ps"
  by (simp_all add: clearTimeout_def)

lemma clearTimeout_nth:
  "i < length (waits ps) \<Longrightarrow>
   waits (clearTimeout j ps) ! i =
     (if i = j \<and> w_timer (waits ps ! i) = Armed then (waits ps ! i)\<lparr>w_timer := Cleared\<rparr>
      else waits ps ! i)"
  by (auto simp: clearTimeout_def nth_list_update)

lemma abort_listener_fields [simp]:
  "length (waits (abort_listener j ps)) = length (waits ps)"
  "emitted (abort_listener j ps) = emitted ps"
  by (simp_all add: abort_listener_def Let_def)

lemma abort_listener_pending:
  "pendingRequests (abort_listener j ps) =
     (if j < length (waits ps) then AList.delete (w_requestId (waits ps ! j)) (pendingRequests ps)
      else pendingRequests ps)"
  by (simp add: abort_listener_def Let_def)

lemma abort_listener_nth:
  "i < length (waits ps) \<Longrightarrow>
   waits (abort_listener j ps) ! i =
     (if i = j \<and> w_settled (waits ps ! i) = None
      then (waits ps ! i)\<lparr>w_settled := Some (cancelled_decision (w_requestId (waits ps ! i)))\<rparr>
      else waits ps ! i)"
  by (auto simp: abort_listener_def Let_def resolve_nth)

lemma timer_callback_fields [simp]:
  "length (waits (timer_callback j ps)) = length (waits ps)"
  "emitted (timer_callback j ps) = emitted ps"
  by (simp_all add: timer_callback_def Let_def)

lemma timer_callback_pending:
  "pendingRequests (timer_callback j ps) =
     (if j < length (waits ps) \<and> w_timer (waits ps ! j) = Armed
      then AList.delete (w_requestId (waits ps ! j)) (pendingRequests ps)
      else pendingRequests ps)"
  by (simp add: timer_callback_def Let_def)

lemma timer_callback_nth:
  "i < length (waits ps) \<Longrightarrow>
   waits (timer_callback j ps) ! i =
     (if i = j \<and> w_timer (waits ps ! i) = Armed
      then (if w_settled (waits ps ! i) = None
            then (waits ps ! i)\<lparr>w_timer := Fired,
                   w_settled := Some (timeout_decision (w_requestId (waits ps ! i)))\<rparr>
            else (waits ps ! i)\<lparr>w_timer := Fired\<rparr>)
      else waits ps ! i)"
  by (auto simp: timer_callback_def Let_def resolve_nth nth_list_update)

lemma resolvePermission_fields [simp]:
  "length (waits (resolvePermission d ps)) = length (waits ps)"
  "emitted (resolvePermission d ps) = emitted ps"
  by (simp_all add: resolvePermission_def Let_def split: option.split)

lemma resolvePermission_pending:
  "pendingRequests (resolvePermission d ps) =
     (case map_of (pendingRequests ps) (requestId d) of
        None \<Rightarrow> pendingRequests ps
      | Some j \<Rightarrow> AList.delete (requestId d) (pendingRequests ps))"
  by (simp add: resolvePermission_def Let_def split: option.split)

lemma resolvePermission_nth:
  "i < length (waits ps) \<Longrightarrow>
   waits (resolvePermission d ps) ! i =
     (if map_of (pendingRequests ps) (requestId d) = Some i
      then (if w_settled (waits ps ! i) = None
            then (waits ps ! i)\<lparr>w_timer := (if w_timer (waits ps ! i) = Armed then Cleared
                                           else w_timer (waits ps ! i)),
                                w_settled := Some d\<rparr>
            else (waits ps ! i)\<lparr>w_timer := (if w_timer (waits ps ! i) = Armed then Cleared
                                           else w_timer (waits ps ! i))\<rparr>)
      else waits ps ! i)"
  by (auto simp: resolvePermission_def Let_def resolve_nth clearTimeout_nth split: option.split)

lemma resolvePermission_unknown:
  "map_of (pendingRequests ps) (requestId d) = None \<Longrightarrow> resolvePermission d ps = ps"
  by (simp add: resolvePermission_def)

lemma settled_service:
  "settled i sys = (if i < length (waits (permissionService sys))
                    then w_settled (waits (permissionService sys) ! i) else None)"
  by (simp add: settled_def)

subsection \<open>A settled promise stays as it is\<close>

lemma resolve_stable:
  "i < length (waits ps) \<Longrightarrow> w_settled (waits ps ! i) = Some v \<Longrightarrow>
   w_settled (waits (resolve j d ps) ! i) = Some v"
  by (auto simp: resolve_nth)

lemma abort_listener_stable:
  "i < length (waits ps) \<Longrightarrow> w_settled (waits ps ! i) = Some v \<Longrightarrow>
   w_settled (waits (abort_listener j ps) ! i) = Some v"
  by (auto simp: abort_listener_nth)

lemma timer_callback_stable:
  "i < length (waits ps) \<Longrightarrow> w_settled (waits ps ! i) = Some v \<Longrightarrow>
   w_settled (waits (timer_callback j ps) ! i) = Some v"
  by (auto simp: timer_callback_nth)

lemma resolvePermission_stable:
  "i < length (waits ps) \<Longrightarrow> w_settled (waits ps ! i) = Some v \<Longrightarrow>
   w_settled (waits (resolvePermission d ps) ! i) = Some v"
  by (auto simp: resolvePermission_nth)

lemma permission_decision_create_service:
  "permission_decision_create data route_id now sys = Inr sys' \<Longrightarrow>
   \<exists>a. p_allow data = Some a \<and> accepted route_id data
     \<and> permissionService sys' = resolvePermission (decision_of data a) (permissionService sys)"
  by (auto simp: permission_decision_create_def accepted_def Let_def split: if_splits option.splits)

lemma permission_decision_create_rejected:
  "\<not> accepted route_id data \<Longrightarrow> isl (permission_decision_create data route_id now sys)"
  by (auto simp: permission_decision_create_def accepted_def Let_def split: option.splits)

lemma permission_decision_create_accepted:
  "accepted route_id data \<Longrightarrow> p_allow data = Some a \<Longrightarrow>
   permission_decision_create data route_id now sys =
     Inr (sys\<lparr>tasks := (tasks sys)(p_taskId data :=
                 patch_approval (if a then running else failed) (Some (p_decidedBy data)) now
                   (tasks sys (p_taskId data))),
              permissionService := resolvePermission (decision_of data a) (permissionService sys)\<rparr>)"
  by (simp add: permission_decision_create_def accepted_def Let_def)

lemma step_Deliver:
  "step (Deliver route_id data now) sys =
     (case p_allow data of
        Some a \<Rightarrow>
          (if accepted route_id data
           then sys\<lparr>tasks := (tasks sys)(p_taskId data :=
                        patch_approval (if a then running else failed) (Some (p_decidedBy data)) now
                          (tasks sys (p_taskId data))),
                    permissionService :=
                        resolvePermission (decision_of data a) (permissionService sys)\<rparr>
           else sys)
      | None \<Rightarrow> sys)"
  by (auto simp: permission_decision_create_def accepted_def Let_def split: option.splits)

declare step.simps(1) [simp del]

lemma step_length [simp]:
  "length (waits (permissionService (step e sys))) = length (waits (permissionService sys))"
  by (cases e) (simp_all add: step_Deliver split: option.split)

lemma step_stable:
  "settled i sys = Some v \<Longrightarrow> settled i (step e sys) = Some v"
  by (cases e)
     (auto simp: settled_service step_Deliver resolvePermission_stable abort_listener_stable
        timer_callback_stable split: option.split if_splits)

lemma run_stable:
  "settled i sys = Some v \<Longrightarrow> settled i (run es sys) = Some v"
  by (induction es arbitrary: sys) (simp_all add: step_stable)

subsection \<open>While the promise is pending\<close>

lemma first_outcome_Cons:
  "first_outcome i rid (e # es) =
     (case first_outcome i rid [e] of Some v \<Rightarrow> Some v | None \<Rightarrow> first_outcome i rid es)"
  by (cases e) (auto split: option.split)

lemma waiting_preserved:
  assumes w: "waiting i rid ps"
    and len: "length (waits ps') = length (waits ps)"
    and ids: "\<And>j. j < length (waits ps) \<Longrightarrow> w_requestId (waits ps' ! j) = w_requestId (waits ps ! j)"
    and sub: "\<And>k j. map_of (pendingRequests ps') k = Some j \<Longrightarrow> map_of (pendingRequests ps) k = Some j"
    and keep: "map_of (pendingRequests ps') rid = map_of (pendingRequests ps) rid"
    and same: "waits ps' ! i = waits ps ! i"
  shows "waiting i rid ps'"
proof -
  from w have wf: "service_well_formed ps" and i: "i < length (waits ps)"
    and r: "w_requestId (waits ps ! i) = rid"
    and u: "\<forall>j < length (waits ps). w_requestId (waits ps ! j) = rid \<longrightarrow> j = i"
    and p: "w_settled (waits ps ! i) = None \<longrightarrow>
            map_of (pendingRequests ps) rid = Some i \<and> w_timer (waits ps ! i) = Armed"
    unfolding waiting_def by blast+
  have wf': "service_well_formed ps'"
    unfolding service_well_formed_def
  proof (intro allI impI)
    fix k j
    assume "map_of (pendingRequests ps') k = Some j"
    then have "map_of (pendingRequests ps) k = Some j"
      by (rule sub)
    with wf have j: "j < length (waits ps)" and k: "w_requestId (waits ps ! j) = k"
      unfolding service_well_formed_def by blast+
    from j have "w_requestId (waits ps' ! j) = w_requestId (waits ps ! j)"
      by (rule ids)
    with j k show "j < length (waits ps') \<and> w_requestId (waits ps' ! j) = k"
      by (simp only: len simp_thms)
  qed
  have u': "\<forall>j < length (waits ps'). w_requestId (waits ps' ! j) = rid \<longrightarrow> j = i"
  proof (intro allI impI)
    fix j
    assume "j < length (waits ps')" and e: "w_requestId (waits ps' ! j) = rid"
    then have j: "j < length (waits ps)"
      by (simp only: len)
    then have "w_requestId (waits ps' ! j) = w_requestId (waits ps ! j)"
      by (rule ids)
    with e have "w_requestId (waits ps ! j) = rid"
      by simp
    with u j show "j = i"
      by blast
  qed
  have p': "w_settled (waits ps' ! i) = None \<longrightarrow>
            map_of (pendingRequests ps') rid = Some i \<and> w_timer (waits ps' ! i) = Armed"
    using p by (simp only: same keep)
  have i': "i < length (waits ps')"
    using i by (simp only: len)
  have r': "w_requestId (waits ps' ! i) = rid"
    using r by (simp only: same)
  show ?thesis
    unfolding waiting_def using wf' i' r' u' p' by blast
qed

lemma map_of_delete_sub:
  "map_of (AList.delete k al) k' = Some j \<Longrightarrow> map_of al k' = Some j"
  by (simp add: delete_conv split: if_splits)

lemma abort_listener_pending_sub:
  "map_of (pendingRequests (abort_listener j ps)) k = Some l \<Longrightarrow>
   map_of (pendingRequests ps) k = Some l"
  by (simp add: abort_listener_pending delete_conv split: if_splits)

lemma timer_callback_pending_sub:
  "map_of (pendingRequests (timer_callback j ps)) k = Some l \<Longrightarrow>
   map_of (pendingRequests ps) k = Some l"
  by (simp add: timer_callback_pending delete_conv split: if_splits)

lemma resolvePermission_pending_sub:
  "map_of (pendingRequests (resolvePermission d ps)) k = Some l \<Longrightarrow>
   map_of (pendingRequests ps) k = Some l"
  by (simp add: resolvePermission_pending delete_conv split: if_splits option.splits)

lemma waiting_abort_other:
  assumes "waiting i rid ps" and "j \<noteq> i"
  shows "waiting i rid (abort_listener j ps)"
    and "w_settled (waits (abort_listener j ps) ! i) = w_settled (waits ps ! i)"
proof -
  from assms(1) have i: "i < length (waits ps)"
    by (simp add: waiting_def)
  have same: "waits (abort_listener j ps) ! i = waits ps ! i"
    using i assms(2) by (simp add: abort_listener_nth)
  then show "w_settled (waits (abort_listener j ps) ! i) = w_settled (waits ps ! i)"
    by simp
  have other: "j < length (waits ps) \<Longrightarrow> w_requestId (waits ps ! j) \<noteq> rid"
    using assms by (auto simp: waiting_def)
  show "waiting i rid (abort_listener j ps)"
    using assms(1)
  proof (rule waiting_preserved)
    show "length (waits (abort_listener j ps)) = length (waits ps)"
      by simp
    show "w_requestId (waits (abort_listener j ps) ! k) = w_requestId (waits ps ! k)"
      if "k < length (waits ps)" for k
      using that by (simp add: abort_listener_nth)
    show "map_of (pendingRequests ps) k = Some l"
      if "map_of (pendingRequests (abort_listener j ps)) k = Some l" for k l
      using that by (rule abort_listener_pending_sub)
    show "map_of (pendingRequests (abort_listener j ps)) rid = map_of (pendingRequests ps) rid"
      using other by (auto simp: abort_listener_pending delete_conv)
    show "waits (abort_listener j ps) ! i = waits ps ! i"
      by (rule same)
  qed
qed

lemma waiting_timer_other:
  assumes "waiting i rid ps" and "j \<noteq> i"
  shows "waiting i rid (timer_callback j ps)"
    and "w_settled (waits (timer_callback j ps) ! i) = w_settled (waits ps ! i)"
proof -
  from assms(1) have i: "i < length (waits ps)"
    by (simp add: waiting_def)
  have same: "waits (timer_callback j ps) ! i = waits ps ! i"
    using i assms(2) by (simp add: timer_callback_nth)
  then show "w_settled (waits (timer_callback j ps) ! i) = w_settled (waits ps ! i)"
    by simp
  have other: "j < length (waits ps) \<Longrightarrow> w_requestId (waits ps ! j) \<noteq> rid"
    using assms by (auto simp: waiting_def)
  show "waiting i rid (timer_callback j ps)"
    using assms(1)
  proof (rule waiting_preserved)
    show "length (waits (timer_callback j ps)) = length (waits ps)"
      by simp
    show "w_requestId (waits (timer_callback j ps) ! k) = w_requestId (waits ps ! k)"
      if "k < length (waits ps)" for k
      using that by (simp add: timer_callback_nth)
    show "map_of (pendingRequests ps) k = Some l"
      if "map_of (pendingRequests (timer_callback j ps)) k = Some l" for k l
      using that by (rule timer_callback_pending_sub)
    show "map_of (pendingRequests (timer_callback j ps)) rid = map_of (pendingRequests ps) rid"
      using other by (auto simp: timer_callback_pending delete_conv)
    show "waits (timer_callback j ps) ! i = waits ps ! i"
      by (rule same)
  qed
qed

lemma waiting_resolve_other:
  assumes "waiting i rid ps" and "requestId d \<noteq> rid"
  shows "waiting i rid (resolvePermission d ps)"
    and "w_settled (waits (resolvePermission d ps) ! i) = w_settled (waits ps ! i)"
proof -
  from assms(1) have i: "i < length (waits ps)" and r: "w_requestId (waits ps ! i) = rid"
    and wf: "service_well_formed ps"
    by (simp_all add: waiting_def)
  have no: "map_of (pendingRequests ps) (requestId d) \<noteq> Some i"
    using wf r assms(2) by (auto simp: service_well_formed_def)
  have same: "waits (resolvePermission d ps) ! i = waits ps ! i"
    using i no by (simp add: resolvePermission_nth)
  then show "w_settled (waits (resolvePermission d ps) ! i) = w_settled (waits ps ! i)"
    by simp
  show "waiting i rid (resolvePermission d ps)"
    using assms(1)
  proof (rule waiting_preserved)
    show "length (waits (resolvePermission d ps)) = length (waits ps)"
      by simp
    show "w_requestId (waits (resolvePermission d ps) ! k) = w_requestId (waits ps ! k)"
      if "k < length (waits ps)" for k
      using that by (simp add: resolvePermission_nth)
    show "map_of (pendingRequests ps) k = Some l"
      if "map_of (pendingRequests (resolvePermission d ps)) k = Some l" for k l
      using that by (rule resolvePermission_pending_sub)
    show "map_of (pendingRequests (resolvePermission d ps)) rid = map_of (pendingRequests ps) rid"
      using assms(2) by (auto simp: resolvePermission_pending delete_conv split: option.split)
    show "waits (resolvePermission d ps) ! i = waits ps ! i"
      by (rule same)
  qed
qed

lemma waiting_abort_self:
  assumes "waiting i rid ps" and "w_settled (waits ps ! i) = None"
  shows "w_settled (waits (abort_listener i ps) ! i) = Some (cancelled_decision rid)"
  using assms by (simp add: waiting_def abort_listener_nth)

lemma waiting_timer_self:
  assumes "waiting i rid ps" and "w_settled (waits ps ! i) = None"
  shows "w_settled (waits (timer_callback i ps) ! i) = Some (timeout_decision rid)"
  using assms by (simp add: waiting_def timer_callback_nth)

lemma waiting_resolve_self:
  assumes "waiting i rid ps" and "w_settled (waits ps ! i) = None" and "requestId d = rid"
  shows "w_settled (waits (resolvePermission d ps) ! i) = Some d"
  using assms by (simp add: waiting_def resolvePermission_nth)

lemma step_decides:
  assumes "waiting i rid (permissionService sys)" and "settled i sys = None"
  shows "first_outcome i rid [e] = Some v \<Longrightarrow> settled i (step e sys) = Some v"
    and "first_outcome i rid [e] = None \<Longrightarrow>
           settled i (step e sys) = None \<and> waiting i rid (permissionService (step e sys))"
proof -
  from assms have i: "i < length (waits (permissionService sys))"
    and u: "w_settled (waits (permissionService sys) ! i) = None"
    by (simp_all add: waiting_def settled_service)
  show "settled i (step e sys) = Some v" if "first_outcome i rid [e] = Some v"
  proof (cases e)
    case (Deliver route_id data now)
    with that obtain a where a: "p_allow data = Some a" "accepted route_id data"
      "p_requestId data = rid" "v = decision_of data a"
      by (auto split: option.splits if_splits)
    then have "requestId (decision_of data a) = rid"
      by (simp add: decision_of_def)
    with assms(1) u have "w_settled (waits (resolvePermission (decision_of data a)
        (permissionService sys)) ! i) = Some (decision_of data a)"
      by (rule waiting_resolve_self)
    then show ?thesis
      using i a Deliver by (simp add: settled_service step_Deliver)
  next
    case (Abort j)
    with that have "j = i" "v = cancelled_decision rid"
      by (auto split: if_splits)
    then show ?thesis
      using i Abort waiting_abort_self [OF assms(1) u] by (simp add: settled_service)
  next
    case (TimerFire j)
    with that have "j = i" "v = timeout_decision rid"
      by (auto split: if_splits)
    then show ?thesis
      using i TimerFire waiting_timer_self [OF assms(1) u] by (simp add: settled_service)
  qed
  show "settled i (step e sys) = None \<and> waiting i rid (permissionService (step e sys))"
    if "first_outcome i rid [e] = None"
  proof (cases e)
    case (Deliver route_id data now)
    show ?thesis
    proof (cases "p_allow data")
      case None
      with Deliver assms show ?thesis by (simp add: step_Deliver)
    next
      case (Some a)
      show ?thesis
      proof (cases "accepted route_id data")
        case False
        with Deliver Some assms show ?thesis by (simp add: step_Deliver)
      next
        case True
        with that Deliver Some have "requestId (decision_of data a) \<noteq> rid"
          by (auto simp: decision_of_def split: if_splits)
        from waiting_resolve_other [OF assms(1) this] show ?thesis
          using i u True Deliver Some by (simp add: settled_service step_Deliver)
      qed
    qed
  next
    case (Abort j)
    with that have "j \<noteq> i"
      by (auto split: if_splits)
    from waiting_abort_other [OF assms(1) this] show ?thesis
      using i u Abort by (simp add: settled_service)
  next
    case (TimerFire j)
    with that have "j \<noteq> i"
      by (auto split: if_splits)
    from waiting_timer_other [OF assms(1) this] show ?thesis
      using i u TimerFire by (simp add: settled_service)
  qed
qed

lemma run_first_outcome:
  "waiting i rid (permissionService sys) \<Longrightarrow> settled i sys = None \<Longrightarrow>
   settled i (run es sys) = first_outcome i rid es"
proof (induction es arbitrary: sys)
  case Nil
  then show ?case by simp
next
  case (Cons e es)
  show ?case
  proof (cases "first_outcome i rid [e]")
    case None
    from step_decides(2) [OF Cons.prems None]
    have "settled i (run es (step e sys)) = first_outcome i rid es"
      using Cons.IH by blast
    with None show ?thesis
      by (simp add: first_outcome_Cons [of i rid e es])
  next
    case (Some v)
    from step_decides(1) [OF Cons.prems Some]
    have "settled i (run es (step e sys)) = Some v"
      by (rule run_stable)
    with Some show ?thesis
      by (simp add: first_outcome_Cons [of i rid e es])
  qed
qed

lemma waitForDecision_waiting:
  assumes "service_well_formed ps" and "fresh_request_id rid ps"
  shows "waiting (length (waits ps)) rid (snd (waitForDecision rid ps))"
    and "w_settled (waits (snd (waitForDecision rid ps)) ! length (waits ps)) = None"
proof -
  let ?ps = "snd (waitForDecision rid ps)"
  have ws: "waits ?ps = waits ps @ [\<lparr>w_requestId = rid, w_settled = None, w_timer = Armed, w_delay = 60000\<rparr>]"
    and pr: "pendingRequests ?ps = AList.update rid (length (waits ps)) (pendingRequests ps)"
    by (simp_all add: waitForDecision_def)
  show "w_settled (waits ?ps ! length (waits ps)) = None"
    by (simp add: ws)
  have f: "j < length (waits ps) \<Longrightarrow> w_requestId (waits ps ! j) \<noteq> rid" for j
    using assms(2) by (auto simp: fresh_request_id_def)
  have wf: "service_well_formed ?ps"
    unfolding service_well_formed_def
  proof (intro allI impI)
    fix k j
    assume a: "map_of (pendingRequests ?ps) k = Some j"
    show "j < length (waits ?ps) \<and> w_requestId (waits ?ps ! j) = k"
    proof (cases "k = rid")
      case True
      with a have "j = length (waits ps)"
        by (simp add: pr update_conv)
      with True show ?thesis by (simp add: ws)
    next
      case False
      with a have "map_of (pendingRequests ps) k = Some j"
        by (simp add: pr update_conv)
      with assms(1) have "j < length (waits ps) \<and> w_requestId (waits ps ! j) = k"
        by (simp add: service_well_formed_def)
      then show ?thesis by (simp add: ws nth_append)
    qed
  qed
  have u: "\<forall>j < length (waits ?ps). w_requestId (waits ?ps ! j) = rid \<longrightarrow> j = length (waits ps)"
    using f by (auto simp: ws nth_append less_Suc_eq)
  show "waiting (length (waits ps)) rid ?ps"
    unfolding waiting_def using wf u by (simp add: ws pr update_conv)
qed

section \<open>Properties of the hook\<close>

subsection \<open>The two halves of the hook, field by field\<close>

lemma patch_approval_fields [simp]:
  "status (patch_approval st by at t) = st"
  "permission_request (patch_approval st by at t) =
     map_option (\<lambda>pr. pr\<lparr>approved_by := by, approved_at := Some at\<rparr>) (permission_request t)"
  by (simp_all add: patch_approval_def)

lemma hook_before_allowed:
  "array_includes (allowedTools (sessions sys (h_sessionId c))) (h_tool_name c) \<Longrightarrow>
   hook_before c sys =
     (Returned \<lparr>permissionDecision = allow_tool,
                permissionDecisionReason = Some ''Allowed by session config''\<rparr>, sys)"
  by (simp add: hook_before_def)

lemma hook_before_suspended:
  assumes "\<not> array_includes (allowedTools (sessions sys (h_sessionId c))) (h_tool_name c)"
  shows "fst (hook_before c sys) =
           Suspended (length (waits (permissionService sys))) (sessions sys (h_sessionId c))"
    and "tasks (snd (hook_before c sys)) =
           (tasks sys)(h_taskId c := (tasks sys (h_taskId c))\<lparr>status := awaiting_permission,
              permission_request := Some (request_of c)\<rparr>)"
    and "sessions (snd (hook_before c sys)) = sessions sys"
    and "projectSettings (snd (hook_before c sys)) = projectSettings sys"
    and "waits (permissionService (snd (hook_before c sys))) =
           waits (permissionService sys) @
             [\<lparr>w_requestId = h_requestId c, w_settled = None, w_timer = Armed, w_delay = 60000\<rparr>]"
    and "pendingRequests (permissionService (snd (hook_before c sys))) =
           AList.update (h_requestId c) (length (waits (permissionService sys)))
             (pendingRequests (permissionService sys))"
    and "emitted (permissionService (snd (hook_before c sys))) =
           emitted (permissionService sys) @
             [(''permission:request'',
               \<lparr>ev_requestId = h_requestId c, ev_sessionId = h_sessionId c,
                ev_taskId = h_taskId c, ev_toolName = h_tool_name c,
                ev_toolInput = h_tool_input c, ev_toolUseID = h_toolUseID c,
                ev_timestamp = h_timestamp c\<rparr>)]"
  using assms
  by (simp_all add: hook_before_def Let_def waitForDecision_def emitRequest_def request_of_def)

lemma hook_before_service:
  assumes "\<not> array_includes (allowedTools (sessions sys (h_sessionId c))) (h_tool_name c)"
  shows "permissionService (snd (hook_before c sys)) =
         snd (waitForDecision (h_requestId c)
               (emitRequest (h_sessionId c)
                  \<lparr>ev_requestId = h_requestId c, ev_sessionId = h_sessionId c,
                   ev_taskId = h_taskId c, ev_toolName = h_tool_name c,
                   ev_toolInput = h_tool_input c, ev_toolUseID = h_toolUseID c,
                   ev_timestamp = h_timestamp c\<rparr> (permissionService sys)))"
  using assms by (simp add: hook_before_def Let_def split: prod.split)

lemma emitRequest_fields [simp]:
  "waits (emitRequest sid r ps) = waits ps"
  "pendingRequests (emitRequest sid r ps) = pendingRequests ps"
  by (simp_all add: emitRequest_def Let_def)

lemma hook_before_waiting:
  assumes "\<not> array_includes (allowedTools (sessions sys (h_sessionId c))) (h_tool_name c)"
    and "service_well_formed (permissionService sys)"
    and "fresh_request_id (h_requestId c) (permissionService sys)"
  shows "waiting (length (waits (permissionService sys))) (h_requestId c)
           (permissionService (snd (hook_before c sys)))"
    and "settled (length (waits (permissionService sys))) (snd (hook_before c sys)) = None"
proof -
  let ?ps = "emitRequest (h_sessionId c)
                  \<lparr>ev_requestId = h_requestId c, ev_sessionId = h_sessionId c,
                   ev_taskId = h_taskId c, ev_toolName = h_tool_name c,
                   ev_toolInput = h_tool_input c, ev_toolUseID = h_toolUseID c,
                   ev_timestamp = h_timestamp c\<rparr> (permissionService sys)"
  have wf: "service_well_formed ?ps"
    using assms(2) by (simp add: service_well_formed_def)
  have fr: "fresh_request_id (h_requestId c) ?ps"
    using assms(3) by (simp add: fresh_request_id_def)
  from waitForDecision_waiting [OF wf fr]
  show "waiting (length (waits (permissionService sys))) (h_requestId c)
           (permissionService (snd (hook_before c sys)))"
    by (simp add: hook_before_service [OF assms(1)])
  show "settled (length (waits (permissionService sys))) (snd (hook_before c sys)) = None"
    by (simp add: settled_def hook_before_suspended(5) [OF assms(1)])
qed

lemma updateProjectSettings_fields:
  "updateProjectSettings dir ts sys = Inr sys' \<Longrightarrow>
   tasks sys' = tasks sys \<and> sessions sys' = sessions sys
   \<and> permissionService sys' = permissionService sys"
  by (auto simp: updateProjectSettings_def Let_def split: option.splits)

lemma hook_after_tasks:
  "tasks (snd (hook_after c session d sys)) =
     (tasks sys)(h_taskId c :=
        patch_approval (if allow d then running else failed) (decidedBy d) (h_approved_at c)
          (tasks sys (h_taskId c)))"
  by (auto simp: hook_after_def Let_def split: sum.splits dest: updateProjectSettings_fields)

lemma hook_after_service:
  "permissionService (snd (hook_after c session d sys)) = permissionService sys"
  by (auto simp: hook_after_def Let_def split: sum.splits dest: updateProjectSettings_fields)

lemma hook_after_sessions:
  "sessions (snd (hook_after c session d sys)) =
     (if remember d \<and> scope d = ScopeSession
      then (sessions sys)(h_sessionId c :=
             (sessions sys (h_sessionId c))\<lparr>allowedTools := Some
                ((case allowedTools session of None \<Rightarrow> [] | Some ts \<Rightarrow> ts) @ [h_tool_name c])\<rparr>)
      else sessions sys)"
  by (auto simp: hook_after_def Let_def split: sum.splits dest: updateProjectSettings_fields)

lemma hook_after_result:
  "fst (hook_after c session d sys) =
     (if remember d \<and> scope d = ScopeProject \<and> projectSettings sys (cwd session) = None
      then Inl (Error ''ENOENT'')
      else Inr \<lparr>permissionDecision = (if allow d then allow_tool else deny_tool),
                permissionDecisionReason = reason d\<rparr>)"
  by (auto simp: hook_after_def Let_def updateProjectSettings_def split: sum.splits option.splits)

lemma hook_after_not_remembered:
  "\<not> remember d \<Longrightarrow>
   hook_after c session d sys =
     (Inr \<lparr>permissionDecision = (if allow d then allow_tool else deny_tool),
            permissionDecisionReason = reason d\<rparr>,
      sys\<lparr>tasks := (tasks sys)(h_taskId c :=
             patch_approval (if allow d then running else failed) (decidedBy d) (h_approved_at c)
               (tasks sys (h_taskId c)))\<rparr>)"
  by (simp add: hook_after_def Let_def)

lemma step_stores [simp]:
  "sessions (step e sys) = sessions sys"
  "projectSettings (step e sys) = projectSettings sys"
  by (cases e; simp add: step_Deliver split: option.split)+

lemma run_stores [simp]:
  "sessions (run es sys) = sessions sys"
  "projectSettings (run es sys) = projectSettings sys"
  by (induction es arbitrary: sys) simp_all

lemma step_tasks:
  "tasks (step e sys) =
     (case e of
        Deliver route_id data now \<Rightarrow>
          (case p_allow data of
             Some a \<Rightarrow>
               (if accepted route_id data
                then (tasks sys)(p_taskId data :=
                       patch_approval (if a then running else failed) (Some (p_decidedBy data)) now
                         (tasks sys (p_taskId data)))
                else tasks sys)
           | None \<Rightarrow> tasks sys)
      | Abort i \<Rightarrow> tasks sys
      | TimerFire i \<Rightarrow> tasks sys)"
  by (cases e) (simp_all add: step_Deliver split: option.split)

subsection \<open>The state invariant\<close>

lemma task_invariant_patch:
  "st \<noteq> awaiting_permission \<Longrightarrow> task_invariant (patch_approval st by at t)"
  by (cases "permission_request t")
     (simp_all add: task_invariant_def has_unapproved_request_def approval_blank_def)

lemma task_invariant_request:
  "task_invariant (t\<lparr>status := awaiting_permission, permission_request := Some (request_of c)\<rparr>)"
  by (simp add: task_invariant_def has_unapproved_request_def approval_blank_def request_of_def)

lemma step_invariant:
  "\<forall>tid. task_invariant (tasks sys tid) \<Longrightarrow> task_invariant (tasks (step e sys) tid)"
  by (cases e) (simp_all add: step_tasks task_invariant_patch split: option.split)

lemma hook_before_invariant:
  "\<forall>tid. task_invariant (tasks sys tid) \<Longrightarrow> task_invariant (tasks (snd (hook_before c sys)) tid)"
proof (cases "array_includes (allowedTools (sessions sys (h_sessionId c))) (h_tool_name c)")
  case True
  assume "\<forall>tid. task_invariant (tasks sys tid)"
  with True show ?thesis by (simp add: hook_before_allowed)
next
  case False
  assume "\<forall>tid. task_invariant (tasks sys tid)"
  then show ?thesis
    by (simp add: hook_before_suspended(2) [OF False] task_invariant_request)
qed

lemma hook_after_invariant:
  "\<forall>tid. task_invariant (tasks sys tid) \<Longrightarrow>
   task_invariant (tasks (snd (hook_after c session d sys)) tid)"
  by (simp add: hook_after_tasks task_invariant_patch)

lemma apply_operation_invariant:
  "\<forall>tid. task_invariant (tasks sys tid) \<Longrightarrow> \<forall>tid. task_invariant (tasks (apply_operation op sys) tid)"
  by (cases op) (simp_all add: step_invariant hook_before_invariant hook_after_invariant)

lemma execute_invariant:
  "\<forall>tid. task_invariant (tasks sys tid) \<Longrightarrow> \<forall>tid. task_invariant (tasks (execute ops sys) tid)"
proof (induction ops arbitrary: sys)
  case Nil
  then show ?case by simp
next
  case (Cons op ops)
  from Cons.prems have "\<forall>tid. task_invariant (tasks (apply_operation op sys) tid)"
    by (rule apply_operation_invariant)
  then have "\<forall>tid. task_invariant (tasks (execute ops (apply_operation op sys)) tid)"
    by (rule Cons.IH)
  then show ?case by simp
qed

lemma no_permission_history_invariant:
  "no_permission_history sys \<Longrightarrow> \<forall>tid. task_invariant (tasks sys tid)"
  by (simp add: no_permission_history_def task_invariant_def has_unapproved_request_def)

text \<open>
  Claim C9, amended: in every state that the operations on permission requests reach (hook
  suspension, decision delivery, timeout, cancellation, the resumption of a hook, in any
  interleaving) from tasks without a permission history, a task has the status
  \<open>awaiting_permission\<close> if and only if its \<open>permission_request\<close> is present and carries
  neither \<^verbatim>\<open>approved_by\<close> nor \<^verbatim>\<open>approved_at\<close>.
\<close>

theorem task_state_invariant:
  assumes "no_permission_history sys"
  shows "status (tasks (execute ops sys) tid) = awaiting_permission
         \<longleftrightarrow> has_unapproved_request (tasks (execute ops sys) tid)"
proof -
  from assms have "\<forall>tid. task_invariant (tasks sys tid)"
    by (rule no_permission_history_invariant)
  then have "\<forall>tid. task_invariant (tasks (execute ops sys) tid)"
    by (rule execute_invariant)
  then show ?thesis
    by (simp add: task_invariant_def)
qed

lemma system0_fields [simp]:
  "sessions system0 sid = \<lparr>allowedTools = None, cwd = ''/repo''\<rparr>"
  "tasks system0 tid = \<lparr>status = running, permission_request = None\<rparr>"
  "projectSettings system0 dir = None"
  "permissionService system0 = empty_service"
  by (simp_all add: system0_def)

lemma empty_service_fields [simp]:
  "waits empty_service = []"
  "pendingRequests empty_service = []"
  "emitted empty_service = []"
  by (simp_all add: empty_service_def)

lemma call1_fields [simp]:
  "h_sessionId call1 = ''s1''" "h_taskId call1 = ''t1''" "h_tool_name call1 = ''Bash''"
  "h_requestId call1 = ''r1''" "h_approved_at call1 = ''10:00:30''"
  "h_requested_at call1 = ''10:00:00''" "h_toolUseID call1 = None"
  "h_tool_input call1 = [(''command'', ''ls'')]" "h_timestamp call1 = ''10:00:00''"
  by (simp_all add: call1_def)

lemma call2_fields [simp]:
  "h_sessionId call2 = ''s1''" "h_taskId call2 = ''t1''" "h_tool_name call2 = ''Write''"
  "h_requestId call2 = ''r2''" "h_approved_at call2 = ''10:01:30''"
  "h_requested_at call2 = ''10:01:00''" "h_toolUseID call2 = None"
  "h_tool_input call2 = [(''file_path'', ''a.txt'')]" "h_timestamp call2 = ''10:01:00''"
  by (simp_all add: call2_def)

lemma body1_fields [simp]:
  "p_requestId (body1 a r sc) = ''r1''" "p_taskId (body1 a r sc) = ''t1''"
  "p_allow (body1 a r sc) = Some a" "p_reason (body1 a r sc) = None"
  "p_remember (body1 a r sc) = r" "p_scope (body1 a r sc) = sc"
  "p_decidedBy (body1 a r sc) = ''alice''"
  by (simp_all add: body1_def)

lemma not_included_None [simp]: "\<not> array_includes None x"
  by (simp add: array_includes_def)

lemma included_Some [simp]: "array_includes (Some xs) x \<longleftrightarrow> x \<in> set xs"
  by (simp add: array_includes_def)

text \<open>
  The invariant at work: after the hook has suspended the task waits and its request
  carries no approval, and after the timeout it has failed and its request carries
  \<^verbatim>\<open>approved_at\<close>.
\<close>

theorem task_state_invariant_witness:
  "no_permission_history system0
   \<and> status (tasks (execute [HookBefore call1] system0) ''t1'') = awaiting_permission
   \<and> has_unapproved_request (tasks (execute [HookBefore call1] system0) ''t1'')
   \<and> status (tasks (execute [HookBefore call1, Env (TimerFire 0),
          HookAfter call1 (sessions system0 ''s1'') (timeout_decision ''r1'')] system0) ''t1'') = failed
   \<and> \<not> has_unapproved_request (tasks (execute [HookBefore call1, Env (TimerFire 0),
          HookAfter call1 (sessions system0 ''s1'') (timeout_decision ''r1'')] system0) ''t1'')"
proof -
  have h: "no_permission_history system0"
    by (simp add: no_permission_history_def)
  have a: "status (tasks (execute [HookBefore call1] system0) ''t1'') = awaiting_permission"
    by (simp add: hook_before_suspended(2))
  have b: "status (tasks (execute [HookBefore call1, Env (TimerFire 0),
          HookAfter call1 (sessions system0 ''s1'') (timeout_decision ''r1'')] system0) ''t1'') = failed"
    by (simp add: hook_after_tasks timeout_decision_def)
  from task_state_invariant [OF h, of "[HookBefore call1]" "''t1''"] a
  have c: "has_unapproved_request (tasks (execute [HookBefore call1] system0) ''t1'')"
    by blast
  from task_state_invariant [OF h, of "[HookBefore call1, Env (TimerFire 0),
          HookAfter call1 (sessions system0 ''s1'') (timeout_decision ''r1'')]" "''t1''"] b
  have d: "\<not> has_unapproved_request (tasks (execute [HookBefore call1, Env (TimerFire 0),
          HookAfter call1 (sessions system0 ''s1'') (timeout_decision ''r1'')] system0) ''t1'')"
    by simp
  from h a b c d show ?thesis by blast
qed

subsection \<open>Waiting for the promise\<close>

lemma run_append: "run (es @ es') sys = run es' (run es sys)"
  by (induction es arbitrary: sys) simp_all

lemma await_settled_now:
  "settled i sys = Some d \<Longrightarrow> await i es sys = Some (d, sys)"
  by (cases es) simp_all

lemma await_pending_prefix:
  "waiting i rid (permissionService sys) \<Longrightarrow> settled i sys = None \<Longrightarrow>
   first_outcome i rid pre = None \<Longrightarrow>
   await i (pre @ es) sys = await i es (run pre sys)
   \<and> waiting i rid (permissionService (run pre sys)) \<and> settled i (run pre sys) = None"
proof (induction pre arbitrary: sys)
  case Nil
  then show ?case by simp
next
  case (Cons e pre)
  from Cons.prems(3) have e: "first_outcome i rid [e] = None"
    and p: "first_outcome i rid pre = None"
    by (simp_all add: first_outcome_Cons [of i rid e pre] split: option.splits)
  from step_decides(2) [OF Cons.prems(1,2) e]
  have s: "settled i (step e sys) = None" and w: "waiting i rid (permissionService (step e sys))"
    by simp_all
  from Cons.IH [OF w s p] show ?case
    using Cons.prems(2) by simp
qed

lemma await_decided:
  assumes "waiting i rid (permissionService sys)" and "settled i sys = None"
    and "first_outcome i rid pre = None" and "first_outcome i rid [e] = Some d"
  shows "await i (pre @ e # post) sys = Some (d, step e (run pre sys))"
proof -
  from await_pending_prefix [OF assms(1,2,3), of "e # post"]
  have a: "await i (pre @ e # post) sys = await i (e # post) (run pre sys)"
    and w: "waiting i rid (permissionService (run pre sys))"
    and s: "settled i (run pre sys) = None"
    by simp_all
  from step_decides(1) [OF w s assms(4)]
  have "settled i (step e (run pre sys)) = Some d" .
  then have "await i post (step e (run pre sys)) = Some (d, step e (run pre sys))"
    by (rule await_settled_now)
  with a s show ?thesis by simp
qed

lemma await_result:
  "await i es sys = Some (d, sys') \<Longrightarrow> settled i (run es sys) = Some d \<and> settled i sys' = Some d"
proof (induction es arbitrary: sys)
  case Nil
  then show ?case by (simp split: option.splits)
next
  case (Cons e es)
  show ?case
  proof (cases "settled i sys")
    case None
    with Cons.prems have "await i es (step e sys) = Some (d, sys')"
      by simp
    then show ?thesis
      using Cons.IH by simp
  next
    case (Some v)
    with Cons.prems have "v = d" "sys' = sys"
      by simp_all
    with Some show ?thesis
      by (simp add: run_stable step_stable)
  qed
qed


lemma evaluate_suspended:
  assumes "\<not> array_includes (allowedTools (sessions sys (h_sessionId c))) (h_tool_name c)"
  shows "evaluate c es sys =
     (case await (length (waits (permissionService sys))) es (snd (hook_before c sys)) of
        None \<Rightarrow> None
      | Some (d, sys2) \<Rightarrow> Some (hook_after c (sessions sys (h_sessionId c)) d sys2))"
proof -
  obtain p s1 where h: "hook_before c sys = (p, s1)"
    by (cases "hook_before c sys")
  with hook_before_suspended(1) [OF assms]
  have "p = Suspended (length (waits (permissionService sys))) (sessions sys (h_sessionId c))"
    by simp
  with h show ?thesis
    by (simp add: evaluate_def)
qed

lemma evaluate_decided:
  assumes "\<not> array_includes (allowedTools (sessions sys (h_sessionId c))) (h_tool_name c)"
    and "service_well_formed (permissionService sys)"
    and "fresh_request_id (h_requestId c) (permissionService sys)"
    and "first_outcome (length (waits (permissionService sys))) (h_requestId c) pre = None"
    and "first_outcome (length (waits (permissionService sys))) (h_requestId c) [e] = Some d"
  shows "await (length (waits (permissionService sys))) (pre @ e # post) (snd (hook_before c sys))
           = Some (d, step e (run pre (snd (hook_before c sys))))"
    and "evaluate c (pre @ e # post) sys =
           Some (hook_after c (sessions sys (h_sessionId c)) d
                   (step e (run pre (snd (hook_before c sys)))))"
proof -
  from hook_before_waiting [OF assms(1,2,3)]
  show a: "await (length (waits (permissionService sys))) (pre @ e # post) (snd (hook_before c sys))
           = Some (d, step e (run pre (snd (hook_before c sys))))"
    using assms(4,5) by (rule await_decided)
  show "evaluate c (pre @ e # post) sys =
           Some (hook_after c (sessions sys (h_sessionId c)) d
                   (step e (run pre (snd (hook_before c sys)))))"
    by (simp add: evaluate_suspended [OF assms(1)] a)
qed

lemma evaluate_outcome:
  assumes "\<not> array_includes (allowedTools (sessions sys (h_sessionId c))) (h_tool_name c)"
    and "service_well_formed (permissionService sys)"
    and "fresh_request_id (h_requestId c) (permissionService sys)"
    and "evaluate c es sys = Some (r, sys')"
  shows "\<exists>d sys2. first_outcome (length (waits (permissionService sys))) (h_requestId c) es = Some d
           \<and> await (length (waits (permissionService sys))) es (snd (hook_before c sys)) = Some (d, sys2)
           \<and> hook_after c (sessions sys (h_sessionId c)) d sys2 = (r, sys')"
proof -
  from assms(4) obtain d sys2 where
    a: "await (length (waits (permissionService sys))) es (snd (hook_before c sys)) = Some (d, sys2)"
    and h: "hook_after c (sessions sys (h_sessionId c)) d sys2 = (r, sys')"
    by (auto simp: evaluate_suspended [OF assms(1)] split: option.splits)
  from await_result [OF a]
  have "settled (length (waits (permissionService sys))) (run es (snd (hook_before c sys))) = Some d"
    by simp
  moreover from hook_before_waiting [OF assms(1,2,3)]
  have "settled (length (waits (permissionService sys))) (run es (snd (hook_before c sys)))
        = first_outcome (length (waits (permissionService sys))) (h_requestId c) es"
    by (rule run_first_outcome)
  ultimately show ?thesis
    using a h by auto
qed

lemma synthesized_outcome [simp]:
  "first_outcome i rid [TimerFire i] = Some (timeout_decision rid)"
  "first_outcome i rid [Abort i] = Some (cancelled_decision rid)"
  by simp_all

lemma synthesized_fields [simp]:
  "\<not> remember (timeout_decision rid)" "\<not> allow (timeout_decision rid)"
  "reason (timeout_decision rid) = Some ''Timeout''" "decidedBy (timeout_decision rid) = None"
  "\<not> remember (cancelled_decision rid)" "\<not> allow (cancelled_decision rid)"
  "reason (cancelled_decision rid) = Some ''Cancelled''" "decidedBy (cancelled_decision rid) = None"
  by (simp_all add: timeout_decision_def cancelled_decision_def)

subsection \<open>The small configuration, evaluated\<close>

lemma hook_before_fst:
  "fst (hook_before c sys) =
     (if array_includes (allowedTools (sessions sys (h_sessionId c))) (h_tool_name c)
      then Returned \<lparr>permissionDecision = allow_tool,
                     permissionDecisionReason = Some ''Allowed by session config''\<rparr>
      else Suspended (length (waits (permissionService sys))) (sessions sys (h_sessionId c)))"
  by (simp add: hook_before_allowed hook_before_suspended(1))

lemma hook_before_tasks:
  "tasks (snd (hook_before c sys)) =
     (if array_includes (allowedTools (sessions sys (h_sessionId c))) (h_tool_name c)
      then tasks sys
      else (tasks sys)(h_taskId c := (tasks sys (h_taskId c))\<lparr>status := awaiting_permission,
              permission_request := Some (request_of c)\<rparr>))"
  by (simp add: hook_before_allowed hook_before_suspended(2))

lemma hook_before_stores [simp]:
  "sessions (snd (hook_before c sys)) = sessions sys"
  "projectSettings (snd (hook_before c sys)) = projectSettings sys"
  by (cases "array_includes (allowedTools (sessions sys (h_sessionId c))) (h_tool_name c)";
      simp add: hook_before_allowed hook_before_suspended(3,4))+

lemma hook_before_waits:
  "waits (permissionService (snd (hook_before c sys))) =
     (if array_includes (allowedTools (sessions sys (h_sessionId c))) (h_tool_name c)
      then waits (permissionService sys)
      else waits (permissionService sys) @
             [\<lparr>w_requestId = h_requestId c, w_settled = None, w_timer = Armed, w_delay = 60000\<rparr>])"
  by (simp add: hook_before_allowed hook_before_suspended(5))

lemma hook_before_pending:
  "pendingRequests (permissionService (snd (hook_before c sys))) =
     (if array_includes (allowedTools (sessions sys (h_sessionId c))) (h_tool_name c)
      then pendingRequests (permissionService sys)
      else AList.update (h_requestId c) (length (waits (permissionService sys)))
             (pendingRequests (permissionService sys)))"
  by (simp add: hook_before_allowed hook_before_suspended(6))

lemma system0_ready:
  "\<not> array_includes (allowedTools (sessions system0 (h_sessionId c))) (h_tool_name c)"
  "service_well_formed (permissionService system0)"
  "fresh_request_id rid (permissionService system0)"
  by (simp_all add: service_well_formed_def fresh_request_id_def)

lemma body_accepted [simp]:
  "accepted ''s1'' (body1 a r sc)" "accepted ''s1'' body2"
  by (simp_all add: accepted_def body2_def)

lemma body2_fields [simp]:
  "p_requestId body2 = ''r2''" "p_taskId body2 = ''t1''" "p_allow body2 = Some True"
  "p_remember body2 = True" "p_scope body2 = ScopeSession" "p_decidedBy body2 = ''bob''"
  by (simp_all add: body2_def)

lemma decision_of_fields [simp]:
  "requestId (decision_of data a) = p_requestId data"
  "allow (decision_of data a) = a"
  "remember (decision_of data a) = p_remember data"
  "scope (decision_of data a) = p_scope data"
  "reason (decision_of data a) = p_reason data"
  "decidedBy (decision_of data a) = Some (p_decidedBy data)"
  by (simp_all add: decision_of_def)

lemma evaluate_system0:
  assumes "first_outcome 0 (h_requestId c) pre = None"
    and "first_outcome 0 (h_requestId c) [e] = Some d"
  shows "evaluate c (pre @ e # post) system0 =
           Some (hook_after c (sessions system0 (h_sessionId c)) d
                   (step e (run pre (snd (hook_before c system0)))))"
proof -
  have p: "first_outcome (length (waits (permissionService system0))) (h_requestId c) pre = None"
    using assms(1) by simp
  have q: "first_outcome (length (waits (permissionService system0))) (h_requestId c) [e] = Some d"
    using assms(2) by simp
  show ?thesis
    by (rule evaluate_decided(2) [OF system0_ready(1) system0_ready(2) system0_ready(3) p q])
qed


subsection \<open>Well-formedness is kept\<close>

lemma well_formed_preserved:
  assumes wf: "service_well_formed ps"
    and len: "length (waits ps') = length (waits ps)"
    and ids: "\<And>j. j < length (waits ps) \<Longrightarrow> w_requestId (waits ps' ! j) = w_requestId (waits ps ! j)"
    and sub: "\<And>k j. map_of (pendingRequests ps') k = Some j \<Longrightarrow> map_of (pendingRequests ps) k = Some j"
  shows "service_well_formed ps'"
  unfolding service_well_formed_def
proof (intro allI impI)
  fix k j
  assume "map_of (pendingRequests ps') k = Some j"
  then have "map_of (pendingRequests ps) k = Some j"
    by (rule sub)
  with wf have j: "j < length (waits ps)" and k: "w_requestId (waits ps ! j) = k"
    unfolding service_well_formed_def by blast+
  from j have "w_requestId (waits ps' ! j) = w_requestId (waits ps ! j)"
    by (rule ids)
  with j k show "j < length (waits ps') \<and> w_requestId (waits ps' ! j) = k"
    by (simp only: len simp_thms)
qed

lemma well_formed_abort_listener:
  "service_well_formed ps \<Longrightarrow> service_well_formed (abort_listener j ps)"
proof (erule well_formed_preserved)
  show "length (waits (abort_listener j ps)) = length (waits ps)"
    by simp
  show "w_requestId (waits (abort_listener j ps) ! k) = w_requestId (waits ps ! k)"
    if "k < length (waits ps)" for k
    using that by (simp add: abort_listener_nth)
  show "map_of (pendingRequests ps) k = Some l"
    if "map_of (pendingRequests (abort_listener j ps)) k = Some l" for k l
    using that by (rule abort_listener_pending_sub)
qed

lemma well_formed_timer_callback:
  "service_well_formed ps \<Longrightarrow> service_well_formed (timer_callback j ps)"
proof (erule well_formed_preserved)
  show "length (waits (timer_callback j ps)) = length (waits ps)"
    by simp
  show "w_requestId (waits (timer_callback j ps) ! k) = w_requestId (waits ps ! k)"
    if "k < length (waits ps)" for k
    using that by (simp add: timer_callback_nth)
  show "map_of (pendingRequests ps) k = Some l"
    if "map_of (pendingRequests (timer_callback j ps)) k = Some l" for k l
    using that by (rule timer_callback_pending_sub)
qed

lemma well_formed_resolvePermission:
  "service_well_formed ps \<Longrightarrow> service_well_formed (resolvePermission d ps)"
proof (erule well_formed_preserved)
  show "length (waits (resolvePermission d ps)) = length (waits ps)"
    by simp
  show "w_requestId (waits (resolvePermission d ps) ! k) = w_requestId (waits ps ! k)"
    if "k < length (waits ps)" for k
    using that by (simp add: resolvePermission_nth)
  show "map_of (pendingRequests ps) k = Some l"
    if "map_of (pendingRequests (resolvePermission d ps)) k = Some l" for k l
    using that by (rule resolvePermission_pending_sub)
qed

lemma well_formed_waitForDecision:
  assumes "service_well_formed ps"
  shows "service_well_formed (snd (waitForDecision rid ps))"
  unfolding service_well_formed_def
proof (intro allI impI)
  fix k j
  assume a: "map_of (pendingRequests (snd (waitForDecision rid ps))) k = Some j"
  show "j < length (waits (snd (waitForDecision rid ps)))
        \<and> w_requestId (waits (snd (waitForDecision rid ps)) ! j) = k"
  proof (cases "k = rid")
    case True
    with a have "j = length (waits ps)"
      by (simp add: waitForDecision_def update_conv)
    with True show ?thesis by (simp add: waitForDecision_def)
  next
    case False
    with a have "map_of (pendingRequests ps) k = Some j"
      by (simp add: waitForDecision_def update_conv)
    with assms have "j < length (waits ps) \<and> w_requestId (waits ps ! j) = k"
      unfolding service_well_formed_def by blast
    then show ?thesis by (simp add: waitForDecision_def nth_append)
  qed
qed

lemma well_formed_step:
  "service_well_formed (permissionService sys) \<Longrightarrow>
   service_well_formed (permissionService (step e sys))"
  by (cases e)
     (simp_all add: step_Deliver well_formed_resolvePermission well_formed_abort_listener
        well_formed_timer_callback split: option.split)

lemma well_formed_hook_before:
  assumes "service_well_formed (permissionService sys)"
  shows "service_well_formed (permissionService (snd (hook_before c sys)))"
proof (cases "array_includes (allowedTools (sessions sys (h_sessionId c))) (h_tool_name c)")
  case True
  with assms show ?thesis by (simp add: hook_before_allowed)
next
  case False
  have "service_well_formed (emitRequest (h_sessionId c)
                  \<lparr>ev_requestId = h_requestId c, ev_sessionId = h_sessionId c,
                   ev_taskId = h_taskId c, ev_toolName = h_tool_name c,
                   ev_toolInput = h_tool_input c, ev_toolUseID = h_toolUseID c,
                   ev_timestamp = h_timestamp c\<rparr> (permissionService sys))"
    using assms by (simp add: service_well_formed_def)
  then show ?thesis
    unfolding hook_before_service [OF False] by (rule well_formed_waitForDecision)
qed

lemma execute_well_formed:
  "service_well_formed (permissionService sys) \<Longrightarrow>
   service_well_formed (permissionService (execute ops sys))"
proof (induction ops arbitrary: sys)
  case Nil
  then show ?case by simp
next
  case (Cons op ops)
  from Cons.prems have "service_well_formed (permissionService (apply_operation op sys))"
    by (cases op) (simp_all add: well_formed_step well_formed_hook_before hook_after_service)
  then show ?case
    using Cons.IH by simp
qed

lemma empty_service_well_formed: "service_well_formed empty_service"
  by (simp add: service_well_formed_def)

section \<open>Claims about the permission hook and the endpoint\<close>

lemma evaluate_synthesized:
  assumes na: "\<not> array_includes (allowedTools (sessions sys (h_sessionId c))) (h_tool_name c)"
    and wf: "service_well_formed (permissionService sys)"
    and fr: "fresh_request_id (h_requestId c) (permissionService sys)"
    and pre: "first_outcome (length (waits (permissionService sys))) (h_requestId c) pre = None"
    and e: "first_outcome (length (waits (permissionService sys))) (h_requestId c) [e] = Some d"
    and d: "\<not> remember d" "\<not> allow d"
  shows "map_option (\<lambda>(d, s). (allow d, reason d, remember d))
           (await (length (waits (permissionService sys))) (pre @ e # post) (snd (hook_before c sys)))
         = Some (False, reason d, False)"
    and "\<exists>sys'. evaluate c (pre @ e # post) sys =
             Some (Inr \<lparr>permissionDecision = deny_tool, permissionDecisionReason = reason d\<rparr>, sys')
           \<and> status (tasks sys' (h_taskId c)) = failed
           \<and> sessions sys' = sessions sys \<and> projectSettings sys' = projectSettings sys"
proof -
  note ed = evaluate_decided [OF na wf fr pre e, of post]
  show "map_option (\<lambda>(d, s). (allow d, reason d, remember d))
           (await (length (waits (permissionService sys))) (pre @ e # post) (snd (hook_before c sys)))
         = Some (False, reason d, False)"
    using d by (simp add: ed(1))
  let ?s2 = "step e (run pre (snd (hook_before c sys)))"
  let ?s3 = "?s2\<lparr>tasks := (tasks ?s2)(h_taskId c :=
             patch_approval (if allow d then running else failed) (decidedBy d) (h_approved_at c)
               (tasks ?s2 (h_taskId c)))\<rparr>"
  have "evaluate c (pre @ e # post) sys =
          Some (Inr \<lparr>permissionDecision = deny_tool, permissionDecisionReason = reason d\<rparr>, ?s3)"
    using d by (simp add: ed(2) hook_after_not_remembered)
  moreover have "status (tasks ?s3 (h_taskId c)) = failed"
    using d by simp
  moreover have "sessions ?s3 = sessions sys" "projectSettings ?s3 = projectSettings sys"
    by (simp_all add: hook_before_suspended(3,4) [OF na])
  ultimately show "\<exists>sys'. evaluate c (pre @ e # post) sys =
             Some (Inr \<lparr>permissionDecision = deny_tool, permissionDecisionReason = reason d\<rparr>, sys')
           \<and> status (tasks sys' (h_taskId c)) = failed
           \<and> sessions sys' = sessions sys \<and> projectSettings sys' = projectSettings sys"
    by blast
qed

lemma hook_before_awaiting:
  "\<not> array_includes (allowedTools (sessions sys (h_sessionId c))) (h_tool_name c) \<Longrightarrow>
   status (tasks (snd (hook_before c sys)) (h_taskId c)) = awaiting_permission
   \<and> permission_request (tasks (snd (hook_before c sys)) (h_taskId c)) = Some (request_of c)
   \<and> w_delay (waits (permissionService (snd (hook_before c sys)))
        ! length (waits (permissionService sys))) = 60000"
  by (simp add: hook_before_suspended)

text \<open>
  Claim C3, amended: for a request whose identifier is new, when neither a decision for it
  nor the abort of its signal comes before its timer (armed with 60000 ms) expires, the
  wait resolves to a decision that denies, has the reason \<open>Timeout\<close> and is not
  remembered; the hook returns \<open>deny\<close> with that reason, the task goes from
  \<open>awaiting_permission\<close> to \<open>failed\<close>, and no allow-list is written.
\<close>

theorem evaluate_timeout:
  assumes "\<not> array_includes (allowedTools (sessions sys (h_sessionId c))) (h_tool_name c)"
    and "service_well_formed (permissionService sys)"
    and "fresh_request_id (h_requestId c) (permissionService sys)"
    and "i = length (waits (permissionService sys))"
    and "first_outcome i (h_requestId c) pre = None"
  shows "status (tasks (snd (hook_before c sys)) (h_taskId c)) = awaiting_permission
       \<and> w_delay (waits (permissionService (snd (hook_before c sys))) ! i) = 60000
       \<and> map_option (\<lambda>(d, s). (allow d, reason d, remember d))
           (await i (pre @ TimerFire i # post) (snd (hook_before c sys)))
          = Some (False, Some ''Timeout'', False)
       \<and> (\<exists>sys'. evaluate c (pre @ TimerFire i # post) sys =
             Some (Inr \<lparr>permissionDecision = deny_tool,
                         permissionDecisionReason = Some ''Timeout''\<rparr>, sys')
           \<and> status (tasks sys' (h_taskId c)) = failed
           \<and> sessions sys' = sessions sys \<and> projectSettings sys' = projectSettings sys)"
proof -
  have e: "first_outcome (length (waits (permissionService sys))) (h_requestId c)
             [TimerFire (length (waits (permissionService sys)))] = Some (timeout_decision (h_requestId c))"
    by simp
  from assms(5) have pre: "first_outcome (length (waits (permissionService sys))) (h_requestId c) pre = None"
    by (simp add: assms(4))
  note s = evaluate_synthesized [OF assms(1,2,3) pre e, of post]
  from s(1) s(2) hook_before_awaiting [OF assms(1)] show ?thesis
    unfolding assms(4) by simp
qed

lemma rejected_unchanged:
  "\<not> accepted route_id data \<Longrightarrow>
   isl (permission_decision_create data route_id now s) \<and> step (Deliver route_id data now) s = s"
  by (simp add: permission_decision_create_rejected step_Deliver split: option.split)

text \<open>
  Claim C4, amended: when the signal of the call is aborted while the request is pending,
  the wait resolves to a decision that denies, has the reason \<open>Cancelled\<close> and is not
  remembered, and the hook returns \<open>deny\<close> without an exception; the same holds of the
  timeout with the reason \<open>Timeout\<close>. A malformed decision is rejected by the endpoint and
  changes nothing, so the request stays pending. An exception leaves the hook only when the
  deciding decision is remembered with project scope (the settings file cannot be read).
\<close>

theorem evaluate_cancelled:
  assumes "\<not> array_includes (allowedTools (sessions sys (h_sessionId c))) (h_tool_name c)"
    and "service_well_formed (permissionService sys)"
    and "fresh_request_id (h_requestId c) (permissionService sys)"
    and "i = length (waits (permissionService sys))"
    and "first_outcome i (h_requestId c) pre = None"
  shows "map_option (\<lambda>(d, s). (allow d, reason d, remember d))
           (await i (pre @ Abort i # post) (snd (hook_before c sys)))
          = Some (False, Some ''Cancelled'', False)
       \<and> (\<exists>sys'. evaluate c (pre @ Abort i # post) sys =
             Some (Inr \<lparr>permissionDecision = deny_tool,
                         permissionDecisionReason = Some ''Cancelled''\<rparr>, sys')
           \<and> status (tasks sys' (h_taskId c)) = failed
           \<and> sessions sys' = sessions sys \<and> projectSettings sys' = projectSettings sys)
       \<and> (\<exists>sys'. evaluate c (pre @ TimerFire i # post) sys =
             Some (Inr \<lparr>permissionDecision = deny_tool,
                         permissionDecisionReason = Some ''Timeout''\<rparr>, sys'))
       \<and> (\<forall>route_id data now s. \<not> accepted route_id data \<longrightarrow>
             isl (permission_decision_create data route_id now s)
             \<and> step (Deliver route_id data now) s = s)
       \<and> (\<forall>es err sys'. evaluate c es sys = Some (Inl err, sys') \<longrightarrow>
             (\<exists>d. first_outcome i (h_requestId c) es = Some d
                  \<and> remember d \<and> scope d = ScopeProject))"
proof -
  have a: "first_outcome (length (waits (permissionService sys))) (h_requestId c)
             [Abort (length (waits (permissionService sys)))] = Some (cancelled_decision (h_requestId c))"
    and t: "first_outcome (length (waits (permissionService sys))) (h_requestId c)
             [TimerFire (length (waits (permissionService sys)))] = Some (timeout_decision (h_requestId c))"
    by simp_all
  from assms(5) have pre: "first_outcome (length (waits (permissionService sys))) (h_requestId c) pre = None"
    by (simp add: assms(4))
  note sa = evaluate_synthesized [OF assms(1,2,3) pre a, of post]
  note st = evaluate_synthesized [OF assms(1,2,3) pre t, of post]
  have throws: "\<exists>d. first_outcome i (h_requestId c) es = Some d \<and> remember d \<and> scope d = ScopeProject"
    if "evaluate c es sys = Some (Inl err, sys')" for es err sys'
  proof -
    from evaluate_outcome [OF assms(1,2,3) that] obtain d sys2 where
      f: "first_outcome i (h_requestId c) es = Some d"
      and h: "hook_after c (sessions sys (h_sessionId c)) d sys2 = (Inl err, sys')"
      unfolding assms(4) by blast
    from h have "fst (hook_after c (sessions sys (h_sessionId c)) d sys2) = Inl err"
      by simp
    then have "remember d \<and> scope d = ScopeProject"
      by (simp add: hook_after_result split: if_splits)
    with f show ?thesis by blast
  qed
  from sa(1) sa(2) st(2) rejected_unchanged throws show ?thesis
    unfolding assms(4) by simp blast
qed













text \<open>
  Claim C7, amended: when the tool is in the allow-list of the session, the hook returns
  \<open>allow\<close> with the reason \<open>Allowed by session config\<close> at once, whatever the environment
  does, and leaves the state as it is (no suspension, no \<^verbatim>\<open>permission:request\<close> event, no
  task update); and in the state a hook leaves after a decision with \<open>remember\<close> and session
  scope, a call for the same tool in the same session returns in this way.
\<close>

theorem session_allow_list_short_circuit:
  "(array_includes (allowedTools (sessions sys (h_sessionId c))) (h_tool_name c) \<longrightarrow>
      evaluate c es sys =
        Some (Inr \<lparr>permissionDecision = allow_tool,
                    permissionDecisionReason = Some ''Allowed by session config''\<rparr>, sys))
   \<and> (remember d \<and> scope d = ScopeSession
        \<and> h_sessionId c' = h_sessionId c \<and> h_tool_name c' = h_tool_name c \<longrightarrow>
      evaluate c' es (snd (hook_after c session d sys)) =
        Some (Inr \<lparr>permissionDecision = allow_tool,
                    permissionDecisionReason = Some ''Allowed by session config''\<rparr>,
              snd (hook_after c session d sys)))"
proof -
  have a: "evaluate c es sys =
        Some (Inr \<lparr>permissionDecision = allow_tool,
                    permissionDecisionReason = Some ''Allowed by session config''\<rparr>, sys)"
    if "array_includes (allowedTools (sessions sys (h_sessionId c))) (h_tool_name c)" for c sys
    using that by (simp add: evaluate_def hook_before_allowed)
  have "array_includes (allowedTools (sessions (snd (hook_after c session d sys)) (h_sessionId c')))
          (h_tool_name c')"
    if "remember d" "scope d = ScopeSession" "h_sessionId c' = h_sessionId c"
       "h_tool_name c' = h_tool_name c"
    using that by (simp add: hook_after_sessions)
  with a show ?thesis by blast
qed



text \<open>
  Claim C2, amended: the endpoint does not compare the \<open>requestId\<close> of a decision with the
  pending request of the task. Every well-formed decision, stale or not, is accepted: the
  status of the task it names becomes \<open>running\<close> or \<open>failed\<close>, the approval fields of the
  request the task carries are overwritten, no other task and no session changes, and
  \<^verbatim>\<open>resolvePermission\<close> is called; when the \<open>requestId\<close> is not pending in the service, no
  promise is resolved and the service stays as it is.
\<close>

theorem decision_delivery_unchecked:
  assumes "accepted route_id data" and "p_allow data = Some a"
  shows "\<exists>sys'. permission_decision_create data route_id now sys = Inr sys'
       \<and> status (tasks sys' (p_taskId data)) = (if a then running else failed)
       \<and> permission_request (tasks sys' (p_taskId data)) =
           map_option (\<lambda>pr. pr\<lparr>approved_by := Some (p_decidedBy data), approved_at := Some now\<rparr>)
             (permission_request (tasks sys (p_taskId data)))
       \<and> (\<forall>tid. tid \<noteq> p_taskId data \<longrightarrow> tasks sys' tid = tasks sys tid)
       \<and> sessions sys' = sessions sys \<and> projectSettings sys' = projectSettings sys
       \<and> permissionService sys' = resolvePermission (decision_of data a) (permissionService sys)
       \<and> (map_of (pendingRequests (permissionService sys)) (p_requestId data) = None \<longrightarrow>
            permissionService sys' = permissionService sys)"
proof -
  have "map_of (pendingRequests (permissionService sys)) (p_requestId data) = None \<Longrightarrow>
        resolvePermission (decision_of data a) (permissionService sys) = permissionService sys"
    by (rule resolvePermission_unknown) (simp add: decision_of_def)
  then show ?thesis
    by (simp add: permission_decision_create_accepted [OF assms])
qed

lemma resolvePermission_forgets:
  "map_of (pendingRequests (resolvePermission d ps)) (requestId d) = None"
  by (simp add: resolvePermission_pending delete_conv split: option.split)

lemma resolvePermission_idem:
  "resolvePermission d (resolvePermission d ps) = resolvePermission d ps"
  by (rule resolvePermission_unknown) (rule resolvePermission_forgets)

text \<open>
  Claim C6, amended: \<^verbatim>\<open>resolvePermission\<close> with a request identifier that is not pending
  leaves the service as it is, so resolving twice is resolving once, and a second delivery
  of a decision through the endpoint does not change the service; but the endpoint patches
  the task at every delivery, the second one included (status and approval fields, with the
  clock of the second delivery).
\<close>

theorem resolution_idempotent:
  "(map_of (pendingRequests ps) (requestId d) = None \<longrightarrow> resolvePermission d ps = ps)
   \<and> resolvePermission d (resolvePermission d ps) = resolvePermission d ps
   \<and> permissionService (step (Deliver route_id data now2) (step (Deliver route_id data now1) sys))
       = permissionService (step (Deliver route_id data now1) sys)
   \<and> (accepted route_id data \<and> p_allow data = Some a \<longrightarrow>
        tasks (step (Deliver route_id data now2) (step (Deliver route_id data now1) sys)) (p_taskId data)
        = patch_approval (if a then running else failed) (Some (p_decidedBy data)) now2
            (tasks (step (Deliver route_id data now1) sys) (p_taskId data)))"
proof (intro conjI impI)
  show "resolvePermission d ps = ps" if "map_of (pendingRequests ps) (requestId d) = None"
    using that by (rule resolvePermission_unknown)
  show "resolvePermission d (resolvePermission d ps) = resolvePermission d ps"
    by (rule resolvePermission_idem)
  show "permissionService (step (Deliver route_id data now2) (step (Deliver route_id data now1) sys))
       = permissionService (step (Deliver route_id data now1) sys)"
    by (simp add: step_Deliver resolvePermission_idem split: option.split)
  show "tasks (step (Deliver route_id data now2) (step (Deliver route_id data now1) sys)) (p_taskId data)
        = patch_approval (if a then running else failed) (Some (p_decidedBy data)) now2
            (tasks (step (Deliver route_id data now1) sys) (p_taskId data))"
    if "accepted route_id data \<and> p_allow data = Some a"
    using that by (simp add: step_Deliver)
qed

subsection \<open>Where the specification and the source differ\<close>

text \<open>
  Claim C3, as the specification states it, has the reason \<open>timeout\<close>. The synthesized
  decision of the source carries \<open>Timeout\<close>. And without any external decision the reason
  is not the timeout when the signal is aborted first.
\<close>

theorem evaluate_timeout_counterexample:
  "map_option fst (evaluate call1 [TimerFire 0] system0)
     = Some (Inr \<lparr>permissionDecision = deny_tool, permissionDecisionReason = Some ''Timeout''\<rparr>)
   \<and> map_option fst (evaluate call1 [TimerFire 0] system0)
     \<noteq> Some (Inr \<lparr>permissionDecision = deny_tool, permissionDecisionReason = Some ''timeout''\<rparr>)
   \<and> map_option fst (evaluate call1 [Abort 0, TimerFire 0] system0)
     = Some (Inr \<lparr>permissionDecision = deny_tool, permissionDecisionReason = Some ''Cancelled''\<rparr>)"
proof -
  have "evaluate call1 ([] @ TimerFire 0 # []) system0 =
           Some (hook_after call1 (sessions system0 (h_sessionId call1)) (timeout_decision ''r1'')
                   (step (TimerFire 0) (run [] (snd (hook_before call1 system0)))))"
    by (rule evaluate_system0) simp_all
  moreover have "evaluate call1 ([] @ Abort 0 # [TimerFire 0]) system0 =
           Some (hook_after call1 (sessions system0 (h_sessionId call1)) (cancelled_decision ''r1'')
                   (step (Abort 0) (run [] (snd (hook_before call1 system0)))))"
    by (rule evaluate_system0) simp_all
  ultimately show ?thesis
    by (simp add: hook_after_result)
qed

text \<open>
  Claim C4, as the specification states it, has the reason \<open>cancelled\<close> and no exception
  across the boundary of \<open>evaluate\<close>. The source carries \<open>Cancelled\<close>, and a decision to
  remember the tool for the project makes the hook throw when the project has no
  \<^verbatim>\<open>.claude/settings.json\<close>.
\<close>

theorem evaluate_cancelled_counterexample:
  "map_option fst (evaluate call1 [Abort 0] system0)
     = Some (Inr \<lparr>permissionDecision = deny_tool, permissionDecisionReason = Some ''Cancelled''\<rparr>)
   \<and> map_option fst (evaluate call1 [Abort 0] system0)
     \<noteq> Some (Inr \<lparr>permissionDecision = deny_tool, permissionDecisionReason = Some ''cancelled''\<rparr>)
   \<and> map_option fst
       (evaluate call1 [Deliver ''s1'' (body1 True True ScopeProject) ''10:00:20''] system0)
     = Some (Inl (Error ''ENOENT''))"
proof -
  have "evaluate call1 ([] @ Abort 0 # []) system0 =
           Some (hook_after call1 (sessions system0 (h_sessionId call1)) (cancelled_decision ''r1'')
                   (step (Abort 0) (run [] (snd (hook_before call1 system0)))))"
    by (rule evaluate_system0) simp_all
  moreover have "evaluate call1
          ([] @ Deliver ''s1'' (body1 True True ScopeProject) ''10:00:20'' # []) system0 =
           Some (hook_after call1 (sessions system0 (h_sessionId call1))
                   (decision_of (body1 True True ScopeProject) True)
                   (step (Deliver ''s1'' (body1 True True ScopeProject) ''10:00:20'')
                      (run [] (snd (hook_before call1 system0)))))"
    by (rule evaluate_system0) simp_all
  ultimately show ?thesis
    by (simp add: hook_after_result)
qed


text \<open>
  Claim C2, as the specification states it: a decision whose \<open>requestId\<close> is not the one
  the task waits for is rejected and changes nothing. Here the task \<open>t1\<close> waits for
  \<open>r2\<close>; the decision for \<open>r1\<close> is accepted and the task is \<open>running\<close> afterwards.
\<close>

theorem decision_delivery_counterexample:
  "status (tasks (snd (hook_before call2 system0)) ''t1'') = awaiting_permission
   \<and> map_option request_id (permission_request (tasks (snd (hook_before call2 system0)) ''t1''))
       = Some ''r2''
   \<and> p_requestId (body1 True False ScopeOnce) = ''r1''
   \<and> map_sum (\<lambda>e. e) (\<lambda>s. status (tasks s ''t1''))
       (permission_decision_create (body1 True False ScopeOnce) ''s1'' ''10:02:00''
          (snd (hook_before call2 system0)))
       = Inr running"
  by (simp add: hook_before_tasks request_of_def permission_decision_create_accepted)

text \<open>
  Claim C6, as the specification states it: the second delivery of a decision has no side
  effect. The endpoint overwrites \<open>approved_at\<close> at the second delivery; and when the task
  has meanwhile resumed and waits for another request (\<open>r2\<close>), the second delivery of the
  decision for \<open>r1\<close> sets it \<open>running\<close>.
\<close>

theorem resolution_idempotent_counterexample:
  "map_option approved_at (permission_request (tasks
       (run [Deliver ''s1'' (body1 True False ScopeOnce) ''10:00:20'']
          (snd (hook_before call1 system0))) ''t1''))
     = Some (Some ''10:00:20'')
   \<and> map_option approved_at (permission_request (tasks
       (run [Deliver ''s1'' (body1 True False ScopeOnce) ''10:00:20'',
             Deliver ''s1'' (body1 True False ScopeOnce) ''10:05:00'']
          (snd (hook_before call1 system0))) ''t1''))
     = Some (Some ''10:05:00'')
   \<and> status (tasks (execute
        [HookBefore call1, Env (Deliver ''s1'' (body1 True False ScopeOnce) ''10:00:20''),
         HookAfter call1 (sessions system0 ''s1'') (decision_of (body1 True False ScopeOnce) True),
         HookBefore call2] system0) ''t1'')
     = awaiting_permission
   \<and> status (tasks (execute
        [HookBefore call1, Env (Deliver ''s1'' (body1 True False ScopeOnce) ''10:00:20''),
         HookAfter call1 (sessions system0 ''s1'') (decision_of (body1 True False ScopeOnce) True),
         HookBefore call2,
         Env (Deliver ''s1'' (body1 True False ScopeOnce) ''10:05:00'')] system0) ''t1'')
     = running"
  by (simp add: step_tasks hook_before_tasks hook_after_tasks hook_after_sessions request_of_def)

text \<open>
  Claim C7, as the specification states it, has the reason \<open>session policy\<close> and promises
  the immediate \<open>allow\<close> for every later call. The source carries
  \<open>Allowed by session config\<close>. And a hook writes the allow-list from the session record it
  read before it was suspended: with two hooks of one session suspended together, the
  second write (\<open>Write\<close>) drops the tool the first one added (\<open>Bash\<close>).
\<close>

theorem session_allow_list_counterexample:
  "map_option fst (evaluate call1 [] system_allowed)
     = Some (Inr \<lparr>permissionDecision = allow_tool,
                   permissionDecisionReason = Some ''Allowed by session config''\<rparr>)
   \<and> map_option fst (evaluate call1 [] system_allowed)
     \<noteq> Some (Inr \<lparr>permissionDecision = allow_tool,
                   permissionDecisionReason = Some ''session policy''\<rparr>)
   \<and> fst (hook_before call2 (snd (hook_before call1 system0)))
     = Suspended 1 (sessions system0 ''s1'')
   \<and> allowedTools (sessions (execute
        [HookBefore call1, HookBefore call2,
         Env (Deliver ''s1'' (body1 True True ScopeSession) ''10:02:00''),
         HookAfter call1 (sessions system0 ''s1'') (decision_of (body1 True True ScopeSession) True)]
        system0) ''s1'')
     = Some [''Bash'']
   \<and> allowedTools (sessions (execute
        [HookBefore call1, HookBefore call2,
         Env (Deliver ''s1'' (body1 True True ScopeSession) ''10:02:00''),
         HookAfter call1 (sessions system0 ''s1'') (decision_of (body1 True True ScopeSession) True),
         Env (Deliver ''s1'' body2 ''10:03:00''),
         HookAfter call2 (sessions system0 ''s1'') (decision_of body2 True)]
        system0) ''s1'')
     = Some [''Write'']"
  by (simp add: system_allowed_def evaluate_def hook_before_allowed hook_before_fst
      hook_before_waits hook_after_sessions)



text \<open>
  Claim C9, as the specification states it: the status is \<open>awaiting_permission\<close> if and only
  if the \<open>permission_request\<close> is present and unresolved. The task \<open>t1\<close> waits for request
  \<open>r2\<close>; a decision for \<open>r1\<close> is delivered. The endpoint sets the task \<open>running\<close>, while
  \<open>r2\<close> is still a key of \<open>pendingRequests\<close> and its promise is pending.
\<close>

theorem task_state_invariant_counterexample:
  "no_permission_history system0
   \<and> status (tasks (execute [HookBefore call2,
        Env (Deliver ''s1'' (body1 True False ScopeOnce) ''10:02:00'')] system0) ''t1'') = running
   \<and> map_option request_id (permission_request (tasks (execute [HookBefore call2,
        Env (Deliver ''s1'' (body1 True False ScopeOnce) ''10:02:00'')] system0) ''t1''))
       = Some ''r2''
   \<and> has_unresolved_request (execute [HookBefore call2,
        Env (Deliver ''s1'' (body1 True False ScopeOnce) ''10:02:00'')] system0) ''t1''"
  by (simp add: no_permission_history_def has_unresolved_request_def request_unresolved_def
      step_tasks step_Deliver hook_before_tasks hook_before_pending hook_before_waits
      request_of_def settled_def resolvePermission_pending resolvePermission_nth)

subsection \<open>The theorems at concrete inputs\<close>

text \<open>
  A run of the theorem: an abort of another call comes first, then the timer; the decision
  that arrives afterwards is too late.
\<close>

theorem evaluate_timeout_witness:
  "\<not> array_includes (allowedTools (sessions system0 (h_sessionId call1))) (h_tool_name call1)
   \<and> service_well_formed (permissionService system0)
   \<and> fresh_request_id (h_requestId call1) (permissionService system0)
   \<and> first_outcome 0 (h_requestId call1) [Abort 1] = None
   \<and> status (tasks (snd (hook_before call1 system0)) ''t1'') = awaiting_permission
   \<and> map_option fst (evaluate call1 ([Abort 1] @ TimerFire 0 #
          [Deliver ''s1'' (body1 True False ScopeOnce) ''10:02:00'']) system0)
       = Some (Inr \<lparr>permissionDecision = deny_tool, permissionDecisionReason = Some ''Timeout''\<rparr>)
   \<and> map_option (\<lambda>(r, s). status (tasks s ''t1'')) (evaluate call1 ([Abort 1] @ TimerFire 0 #
          [Deliver ''s1'' (body1 True False ScopeOnce) ''10:02:00'']) system0)
       = Some failed"
proof -
  have i: "0 = length (waits (permissionService system0))"
    by simp
  have p: "first_outcome 0 (h_requestId call1) [Abort 1] = None"
    by simp
  note t = evaluate_timeout [OF system0_ready(1) system0_ready(2) system0_ready(3) i p,
      of "[Deliver ''s1'' (body1 True False ScopeOnce) ''10:02:00'']"]
  from t have "status (tasks (snd (hook_before call1 system0)) ''t1'') = awaiting_permission"
    by simp
  moreover from t obtain sys' where
    "evaluate call1 ([Abort 1] @ TimerFire 0 #
          [Deliver ''s1'' (body1 True False ScopeOnce) ''10:02:00'']) system0
       = Some (Inr \<lparr>permissionDecision = deny_tool, permissionDecisionReason = Some ''Timeout''\<rparr>, sys')"
    and "status (tasks sys' (h_taskId call1)) = failed"
    by blast
  ultimately show ?thesis
    using system0_ready(1) [of call1] system0_ready(2) system0_ready(3) [of "h_requestId call1"] p
    by simp
qed

text \<open>
  A run of the theorem: a request without a route id is rejected, then the signal is
  aborted; the timer that still fires afterwards changes nothing.
\<close>

theorem evaluate_cancelled_witness:
  "\<not> array_includes (allowedTools (sessions system0 (h_sessionId call1))) (h_tool_name call1)
   \<and> service_well_formed (permissionService system0)
   \<and> fresh_request_id (h_requestId call1) (permissionService system0)
   \<and> first_outcome 0 (h_requestId call1) [Deliver [] (body1 True False ScopeOnce) ''10:00:10''] = None
   \<and> \<not> accepted [] (body1 True False ScopeOnce)
   \<and> map_option fst (evaluate call1 ([Deliver [] (body1 True False ScopeOnce) ''10:00:10'']
          @ Abort 0 # [TimerFire 0]) system0)
       = Some (Inr \<lparr>permissionDecision = deny_tool, permissionDecisionReason = Some ''Cancelled''\<rparr>)
   \<and> map_option (\<lambda>(r, s). status (tasks s ''t1''))
        (evaluate call1 ([Deliver [] (body1 True False ScopeOnce) ''10:00:10'']
          @ Abort 0 # [TimerFire 0]) system0)
       = Some failed
   \<and> isl (permission_decision_create (body1 True False ScopeOnce) [] ''10:00:10'' system0)"
proof -
  have i: "0 = length (waits (permissionService system0))"
    by simp
  have n: "\<not> accepted [] (body1 True False ScopeOnce)"
    by (simp add: accepted_def)
  then have p: "first_outcome 0 (h_requestId call1)
      [Deliver [] (body1 True False ScopeOnce) ''10:00:10''] = None"
    by simp
  note t = evaluate_cancelled [OF system0_ready(1) system0_ready(2) system0_ready(3) i p,
      of "[TimerFire 0]"]
  from t obtain sys' where
    "evaluate call1 ([Deliver [] (body1 True False ScopeOnce) ''10:00:10'']
          @ Abort 0 # [TimerFire 0]) system0
       = Some (Inr \<lparr>permissionDecision = deny_tool, permissionDecisionReason = Some ''Cancelled''\<rparr>, sys')"
    and "status (tasks sys' (h_taskId call1)) = failed"
    by blast
  moreover from t n
  have "isl (permission_decision_create (body1 True False ScopeOnce) [] ''10:00:10'' system0)"
    by blast
  ultimately show ?thesis
    using system0_ready(1) [of call1] system0_ready(2) system0_ready(3) [of "h_requestId call1"] p n
    by simp
qed


text \<open>Both parts of the theorem at the tool \<open>Bash\<close> of session \<open>s1\<close>.\<close>

theorem session_allow_list_short_circuit_witness:
  "array_includes (allowedTools (sessions system_allowed (h_sessionId call1))) (h_tool_name call1)
   \<and> evaluate call1 [TimerFire 0] system_allowed =
        Some (Inr \<lparr>permissionDecision = allow_tool,
                    permissionDecisionReason = Some ''Allowed by session config''\<rparr>, system_allowed)
   \<and> remember (decision_of (body1 True True ScopeSession) True)
   \<and> scope (decision_of (body1 True True ScopeSession) True) = ScopeSession
   \<and> evaluate call1 [TimerFire 0]
        (snd (hook_after call1 (sessions system0 ''s1'')
                (decision_of (body1 True True ScopeSession) True) system0)) =
        Some (Inr \<lparr>permissionDecision = allow_tool,
                    permissionDecisionReason = Some ''Allowed by session config''\<rparr>,
              snd (hook_after call1 (sessions system0 ''s1'')
                (decision_of (body1 True True ScopeSession) True) system0))"
proof -
  have a: "array_includes (allowedTools (sessions system_allowed (h_sessionId call1))) (h_tool_name call1)"
    by (simp add: system_allowed_def)
  have r: "remember (decision_of (body1 True True ScopeSession) True)
           \<and> scope (decision_of (body1 True True ScopeSession) True) = ScopeSession"
    by simp
  note t1 = session_allow_list_short_circuit [of system_allowed call1 "[TimerFire 0]"
      "decision_of (body1 True True ScopeSession) True" call1 "sessions system0 ''s1''"]
  note t2 = session_allow_list_short_circuit [of system0 call1 "[TimerFire 0]"
      "decision_of (body1 True True ScopeSession) True" call1 "sessions system0 ''s1''"]
  from t1 a have "evaluate call1 [TimerFire 0] system_allowed =
        Some (Inr \<lparr>permissionDecision = allow_tool,
                    permissionDecisionReason = Some ''Allowed by session config''\<rparr>, system_allowed)"
    by blast
  moreover from t2 r have "evaluate call1 [TimerFire 0]
        (snd (hook_after call1 (sessions system0 ''s1'')
                (decision_of (body1 True True ScopeSession) True) system0)) =
        Some (Inr \<lparr>permissionDecision = allow_tool,
                    permissionDecisionReason = Some ''Allowed by session config''\<rparr>,
              snd (hook_after call1 (sessions system0 ''s1'')
                (decision_of (body1 True True ScopeSession) True) system0))"
    by blast
  ultimately show ?thesis
    using a r by blast
qed


text \<open>
  A run of the theorem: the task waits for request \<open>r2\<close>, the decision is for \<open>r1\<close>.
\<close>

theorem decision_delivery_unchecked_witness:
  "accepted ''s1'' (body1 True False ScopeOnce)
   \<and> p_allow (body1 True False ScopeOnce) = Some True
   \<and> map_option request_id (permission_request (tasks (snd (hook_before call2 system0)) ''t1''))
       = Some ''r2''
   \<and> map_of (pendingRequests (permissionService (snd (hook_before call2 system0))))
        (p_requestId (body1 True False ScopeOnce)) = None
   \<and> map_sum (\<lambda>e. e)
        (\<lambda>s. (status (tasks s ''t1''),
              map_option approved_by (permission_request (tasks s ''t1'')),
              permissionService s = permissionService (snd (hook_before call2 system0))))
        (permission_decision_create (body1 True False ScopeOnce) ''s1'' ''10:02:00''
           (snd (hook_before call2 system0)))
       = Inr (running, Some (Some ''alice''), True)"
proof -
  have a: "accepted ''s1'' (body1 True False ScopeOnce)"
    and b: "p_allow (body1 True False ScopeOnce) = Some True"
    by simp_all
  have c: "map_of (pendingRequests (permissionService (snd (hook_before call2 system0))))
        (p_requestId (body1 True False ScopeOnce)) = None"
    by (simp add: hook_before_pending)
  have d: "map_option request_id (permission_request (tasks (snd (hook_before call2 system0)) ''t1''))
       = Some ''r2''"
    by (simp add: hook_before_tasks request_of_def)
  from decision_delivery_unchecked [OF a b, of "''10:02:00''" "snd (hook_before call2 system0)"] c
  obtain sys' where
    "permission_decision_create (body1 True False ScopeOnce) ''s1'' ''10:02:00''
       (snd (hook_before call2 system0)) = Inr sys'"
    and "status (tasks sys' ''t1'') = running"
    and "permission_request (tasks sys' ''t1'') =
           map_option (\<lambda>pr. pr\<lparr>approved_by := Some ''alice'', approved_at := Some ''10:02:00''\<rparr>)
             (permission_request (tasks (snd (hook_before call2 system0)) ''t1''))"
    and "permissionService sys' = permissionService (snd (hook_before call2 system0))"
    by auto
  then show ?thesis
    using a b c d by (simp add: hook_before_tasks)
qed

text \<open>The theorem at an unknown identifier and at a decision that is delivered twice.\<close>

theorem resolution_idempotent_witness:
  "map_of (pendingRequests empty_service) (requestId (timeout_decision ''r1'')) = None
   \<and> resolvePermission (timeout_decision ''r1'') empty_service = empty_service
   \<and> accepted ''s1'' (body1 True False ScopeOnce)
   \<and> p_allow (body1 True False ScopeOnce) = Some True
   \<and> permissionService (step (Deliver ''s1'' (body1 True False ScopeOnce) ''10:05:00'')
        (step (Deliver ''s1'' (body1 True False ScopeOnce) ''10:00:20'')
           (snd (hook_before call1 system0))))
     = permissionService (step (Deliver ''s1'' (body1 True False ScopeOnce) ''10:00:20'')
           (snd (hook_before call1 system0)))
   \<and> tasks (step (Deliver ''s1'' (body1 True False ScopeOnce) ''10:05:00'')
        (step (Deliver ''s1'' (body1 True False ScopeOnce) ''10:00:20'')
           (snd (hook_before call1 system0)))) ''t1''
     = patch_approval running (Some ''alice'') ''10:05:00''
         (tasks (step (Deliver ''s1'' (body1 True False ScopeOnce) ''10:00:20'')
           (snd (hook_before call1 system0))) ''t1'')"
proof -
  have a: "map_of (pendingRequests empty_service) (requestId (timeout_decision ''r1'')) = None"
    by simp
  have b: "accepted ''s1'' (body1 True False ScopeOnce) \<and> p_allow (body1 True False ScopeOnce) = Some True"
    by simp
  note t1 = resolution_idempotent [of empty_service "timeout_decision ''r1''" "''s1''"
      "body1 True False ScopeOnce" "''10:05:00''" "''10:00:20''" "snd (hook_before call1 system0)" True]
  from t1 a have "resolvePermission (timeout_decision ''r1'') empty_service = empty_service"
    by blast
  moreover from t1 have "permissionService (step (Deliver ''s1'' (body1 True False ScopeOnce) ''10:05:00'')
        (step (Deliver ''s1'' (body1 True False ScopeOnce) ''10:00:20'')
           (snd (hook_before call1 system0))))
     = permissionService (step (Deliver ''s1'' (body1 True False ScopeOnce) ''10:00:20'')
           (snd (hook_before call1 system0)))"
    by blast
  moreover from t1 b have "tasks (step (Deliver ''s1'' (body1 True False ScopeOnce) ''10:05:00'')
        (step (Deliver ''s1'' (body1 True False ScopeOnce) ''10:00:20'')
           (snd (hook_before call1 system0)))) ''t1''
     = patch_approval running (Some ''alice'') ''10:05:00''
         (tasks (step (Deliver ''s1'' (body1 True False ScopeOnce) ''10:00:20'')
           (snd (hook_before call1 system0))) ''t1'')"
    by simp
  ultimately show ?thesis
    using a b by blast
qed

end
